theory Spec2Isabelle
  imports Main "HOL-Library.Multiset" "HOL-Library.Monad_Syntax"
begin

text \<open>
  The in-memory search engine of the repository: the tokenizer, the chained hash table
  with its linked lists, the trie and the engine that ingests documents and answers
  keyword, prefix and filename queries.  The first part embeds the Python code; the
  second part states what the specification says about it and proves it.
\<close>

section \<open>Strings\<close>

text \<open>
  A Python \<^verbatim>\<open>str\<close> is modelled as a \<^typ>\<open>string\<close> whose characters are the code
  points U+0000 .. U+00FF; \<open>ord\<close> is \<^const>\<open>of_char\<close>.  On this range
  \<^verbatim>\<open>str.lower\<close> maps \<open>A-Z\<close> and the Latin-1 capitals (U+00C0 .. U+00DE without the
  multiplication sign U+00D7) to the character 32 places later and leaves every other
  character alone; \<^verbatim>\<open>str.strip\<close> removes the characters for which
  \<^verbatim>\<open>str.isspace\<close> holds from both ends.
\<close>

definition ord :: "char \<Rightarrow> nat" where
  "ord c = of_char c"

definition lower_char :: "char \<Rightarrow> char" where
  "lower_char c =
     (if (65 \<le> ord c \<and> ord c \<le> 90) \<or> (192 \<le> ord c \<and> ord c \<le> 222 \<and> ord c \<noteq> 215)
      then char_of (ord c + 32) else c)"

definition lower :: "string \<Rightarrow> string" where
  "lower s = map lower_char s"

definition isspace :: "char \<Rightarrow> bool" where
  "isspace c =
     ((9 \<le> ord c \<and> ord c \<le> 13) \<or> (28 \<le> ord c \<and> ord c \<le> 32) \<or> ord c = 133 \<or> ord c = 160)"

definition strip :: "string \<Rightarrow> string" where
  "strip s = rev (dropWhile isspace (rev (dropWhile isspace s)))"

text \<open>\<^verbatim>\<open>filename.startswith(q)\<close> and \<^verbatim>\<open>q in filename\<close>.\<close>

fun startswith :: "string \<Rightarrow> string \<Rightarrow> bool" where
  "startswith s [] = True"
| "startswith [] (q # qs) = False"
| "startswith (c # cs) (q # qs) = (c = q \<and> startswith cs qs)"

fun contains :: "string \<Rightarrow> string \<Rightarrow> bool" where
  "contains [] q = (q = [])"
| "contains (c # cs) q = (startswith (c # cs) q \<or> contains cs q)"

section \<open>Tokenizer\<close>

text \<open>The character class \<^verbatim>\<open>[a-zA-Z0-9]\<close> of the regular expression.\<close>

definition alnum :: "char \<Rightarrow> bool" where
  "alnum c =
     ((97 \<le> ord c \<and> ord c \<le> 122) \<or> (65 \<le> ord c \<and> ord c \<le> 90) \<or> (48 \<le> ord c \<and> ord c \<le> 57))"

text \<open>
  \<^verbatim>\<open>re.findall(r"[a-zA-Z0-9]+", s)\<close>: the scan goes left to right; \<open>cur\<close> is the match
  in progress, which the greedy \<^verbatim>\<open>+\<close> extends as long as the next character is in the
  class, and which is emitted when it is non-empty and a character outside the class or
  the end of the input is reached.
\<close>

fun findall :: "string \<Rightarrow> string \<Rightarrow> string list" where
  "findall cur [] = (if cur = [] then [] else [cur])"
| "findall cur (c # cs) =
     (if alnum c then findall (cur @ [c]) cs
      else if cur = [] then findall [] cs
      else cur # findall [] cs)"

definition STOPWORDS :: "string list" where
  "STOPWORDS =
     [''a'', ''an'', ''and'', ''are'', ''as'', ''at'', ''be'', ''but'', ''by'', ''for'',
      ''if'', ''in'', ''into'', ''is'', ''it'', ''no'', ''not'', ''of'', ''on'', ''or'',
      ''such'', ''that'', ''the'', ''their'', ''then'', ''there'', ''these'', ''they'',
      ''this'', ''to'', ''was'', ''will'', ''with'']"

definition tokenize :: "string \<Rightarrow> string list" where
  "tokenize text = filter (\<lambda>token. token \<notin> set STOPWORDS) (findall [] (lower text))"

text \<open>
  The specification's reading of the scan: \<open>runs s ts\<close> holds when \<open>ts\<close> are the
  maximal runs of class characters of \<open>s\<close>, in order.  A separator is skipped; a run is
  non-empty, consists of class characters only, and is followed by the end of the
  input or by a separator (so it cannot be extended to the right, nor, since only
  separators are skipped before it, to the left).
\<close>

inductive runs :: "string \<Rightarrow> string list \<Rightarrow> bool" where
  runs_Nil: "runs [] []"
| runs_sep: "\<not> alnum c \<Longrightarrow> runs s ts \<Longrightarrow> runs (c # s) ts"
| runs_end: "r \<noteq> [] \<Longrightarrow> \<forall>c\<in>set r. alnum c \<Longrightarrow> runs r [r]"
| runs_run: "r \<noteq> [] \<Longrightarrow> \<forall>c\<in>set r. alnum c \<Longrightarrow> \<not> alnum c' \<Longrightarrow> runs s ts
             \<Longrightarrow> runs (r @ c' # s) (r # ts)"


section \<open>Insertion-ordered dictionaries\<close>

text \<open>
  A Python \<^verbatim>\<open>dict\<close> iterates in insertion order and assigning to a key that is
  present keeps its position.  It is modelled as an association list: \<open>d[k] = v\<close> is
  \<open>dict_set d k v\<close>, \<open>d.get(k)\<close> is \<open>dict_get d k\<close>, \<open>d.get(k, 0)\<close> is
  \<open>dict_get_default d k 0\<close> and \<open>d.items()\<close> is the list itself.
\<close>

fun dict_set :: "('k \<times> 'v) list \<Rightarrow> 'k \<Rightarrow> 'v \<Rightarrow> ('k \<times> 'v) list" where
  "dict_set [] k v = [(k, v)]"
| "dict_set ((k', v') # d) k v = (if k' = k then (k, v) # d else (k', v') # dict_set d k v)"

definition dict_get :: "('k \<times> 'v) list \<Rightarrow> 'k \<Rightarrow> 'v option" where
  "dict_get d k = map_of d k"

definition dict_get_default :: "('k \<times> 'v) list \<Rightarrow> 'k \<Rightarrow> 'v \<Rightarrow> 'v" where
  "dict_get_default d k dflt = (case map_of d k of None \<Rightarrow> dflt | Some v \<Rightarrow> v)"

section \<open>Sorting and slicing\<close>

text \<open>
  \<^verbatim>\<open>sorted(xs, key=key, reverse=True)\<close> and \<^verbatim>\<open>xs.sort(key=key, reverse=True)\<close>:
  CPython reverses the list, sorts it stably in ascending order of the key and
  reverses the result, so that elements with equal keys keep their original order.
  \<^const>\<open>sort_key\<close> is a stable insertion sort.
\<close>

definition sort_reverse :: "('a \<Rightarrow> int) \<Rightarrow> 'a list \<Rightarrow> 'a list" where
  "sort_reverse key xs = rev (sort_key key (rev xs))"

text \<open>\<^verbatim>\<open>xs[:limit]\<close>; a negative limit counts from the end.\<close>

definition slice_to :: "'a list \<Rightarrow> int \<Rightarrow> 'a list" where
  "slice_to xs limit =
     (if 0 \<le> limit then take (nat limit) xs else take (length xs - nat (- limit)) xs)"

section \<open>Linked list\<close>

record posting =
  doc_id :: int
  term_freq :: int

text \<open>
  A \<^verbatim>\<open>LinkedList\<close> is the list of the values of its nodes, from the head.
  \<open>append\<close> walks to the last node and links the new one behind it; \<open>find\<close> returns
  the first node whose value satisfies the predicate, here as its position, so that
  the caller's \<^verbatim>\<open>node.value\<close> is \<open>xs ! n\<close> and its assignment is \<open>xs[n := v]\<close>.
\<close>

fun append_ll :: "'a list \<Rightarrow> 'a \<Rightarrow> 'a list" where
  "append_ll [] v = [v]"
| "append_ll (x # xs) v = x # append_ll xs v"

fun find_ll :: "'a list \<Rightarrow> ('a \<Rightarrow> bool) \<Rightarrow> nat option" where
  "find_ll [] predicate = None"
| "find_ll (x # xs) predicate =
     (if predicate x then Some 0 else map_option Suc (find_ll xs predicate))"

definition items :: "'a list \<Rightarrow> 'a list" where
  "items xs = xs"

section \<open>Hash table\<close>

record 'v hashtable =
  capacity :: nat
  buckets :: "(string \<times> 'v) list list"
  size_ht :: nat

definition HashTable :: "int \<Rightarrow> 'v hashtable" where
  "HashTable c =
     \<lparr>capacity = nat (max 8 c), buckets = replicate (nat (max 8 c)) [], size_ht = 0\<rparr>"

definition hash :: "'v hashtable \<Rightarrow> string \<Rightarrow> nat" where
  "hash T key = foldl (\<lambda>h ch. (h * 31 + ord ch) mod capacity T) 0 key"

text \<open>
  The fields of a table are written by the constructor, \<open>set\<close> and \<open>_resize\<close>
  only.  In the tables they produce the number of buckets is the capacity, which is at
  least 8 (\<open>ht_wf\<close> below), so that \<open>_hash\<close> never divides by zero and the bucket
  index is in range; what is proved about tables is proved for these.  \<open>get\<close> returns
  \<open>None\<close> for a key that is absent.
\<close>

definition get :: "'v hashtable \<Rightarrow> string \<Rightarrow> 'v option" where
  "get T key =
     (let index = hash T key;
          bucket = buckets T ! index
      in case find_ll bucket (\<lambda>kv. fst kv = key) of
           Some n \<Rightarrow> Some (snd (bucket ! n))
         | None \<Rightarrow> None)"

text \<open>
  \<open>set\<close> calls \<open>_resize\<close>, whose loop calls \<open>set\<close> again on the table being
  rebuilt.  The three pieces are the three kinds of call of one function; a call that
  does not return has the value \<open>None\<close>.  The test
  \<^verbatim>\<open>self.size / self.capacity > 0.75\<close> is the comparison of the exact quotient,
  \<open>4 * size > 3 * capacity\<close>; the correctly rounded floating-point quotient gives
  the same answer for every capacity below \<open>2\<^sup>5\<^sup>2\<close>.  The two nested loops of
  \<open>_resize\<close> over the old buckets and over each bucket's items run over the
  concatenation of the old buckets.
\<close>

datatype 'v call =
  Set "'v hashtable" string 'v
| Resize "'v hashtable"
| Reinsert "'v hashtable" "(string \<times> 'v) list"

partial_function (option) run :: "'v call \<Rightarrow> 'v hashtable option" where
  "run c =
     (case c of
        Set T key v \<Rightarrow>
          (let index = hash T key;
               bucket = buckets T ! index
           in case find_ll bucket (\<lambda>kv. fst kv = key) of
                Some n \<Rightarrow> Some (T\<lparr>buckets := (buckets T)[index := bucket[n := (key, v)]]\<rparr>)
              | None \<Rightarrow>
                 (let T1 = T\<lparr>buckets := (buckets T)[index := append_ll bucket (key, v)],
                             size_ht := size_ht T + 1\<rparr>
                  in if 4 * size_ht T1 > 3 * capacity T1 then run (Resize T1) else Some T1))
      | Resize T \<Rightarrow>
          run (Reinsert
                 (T\<lparr>capacity := capacity T * 2,
                    buckets := replicate (capacity T * 2) [],
                    size_ht := 0\<rparr>)
                 (concat (map items (buckets T))))
      | Reinsert T kvs \<Rightarrow>
          (case kvs of
             [] \<Rightarrow> Some T
           | (key, v) # rest \<Rightarrow> Option.bind (run (Set T key v)) (\<lambda>T'. run (Reinsert T' rest))))"

definition set_ht :: "'v hashtable \<Rightarrow> string \<Rightarrow> 'v \<Rightarrow> 'v hashtable option" where
  "set_ht T key v = run (Set T key v)"

definition resize :: "'v hashtable \<Rightarrow> 'v hashtable option" where
  "resize T = run (Resize T)"

text \<open>The entries of a table, and what every table built by the constructor and \<open>set\<close> satisfies.\<close>

definition entries :: "'v hashtable \<Rightarrow> (string \<times> 'v) list" where
  "entries T = concat (buckets T)"

definition ht_wf :: "'v hashtable \<Rightarrow> bool" where
  "ht_wf T \<longleftrightarrow>
     8 \<le> capacity T \<and> length (buckets T) = capacity T \<and>
     (\<forall>i<capacity T. distinct (map fst (buckets T ! i)) \<and>
                      (\<forall>kv\<in>set (buckets T ! i). hash T (fst kv) = i)) \<and>
     size_ht T = length (entries T)"

definition ht_inv :: "'v hashtable \<Rightarrow> bool" where
  "ht_inv T \<longleftrightarrow> ht_wf T \<and> 4 * size_ht T \<le> 3 * capacity T"


text \<open>A sequence of \<open>set\<close> calls on one table, in order.\<close>

fun set_all :: "'v hashtable \<Rightarrow> (string \<times> 'v) list \<Rightarrow> 'v hashtable option" where
  "set_all T [] = Some T"
| "set_all T ((key, v) # kvs) = Option.bind (set_ht T key v) (\<lambda>T'. set_all T' kvs)"

section \<open>Trie\<close>

datatype trienode =
  TrieNode (children: "(char \<times> trienode) list") (is_end: bool) (frequency: int)

text \<open>A \<^verbatim>\<open>Trie\<close> is its root node.\<close>

fun insert_trie :: "trienode \<Rightarrow> string \<Rightarrow> trienode" where
  "insert_trie node [] = TrieNode (children node) True (frequency node + 1)"
| "insert_trie node (ch # word) =
     (let child = (case dict_get (children node) ch of
                     None \<Rightarrow> TrieNode [] False 0
                   | Some n \<Rightarrow> n)
      in TrieNode (dict_set (children node) ch (insert_trie child word))
           (is_end node) (frequency node))"

fun walk :: "trienode \<Rightarrow> string \<Rightarrow> trienode option" where
  "walk node [] = Some node"
| "walk node (ch # prefix) =
     (case dict_get (children node) ch of
        None \<Rightarrow> None
      | Some child \<Rightarrow> walk child prefix)"

text \<open>
  The loop of \<open>autocomplete\<close> over the queue: the first element is popped, recorded
  when it ends a term, and its children are pushed behind the others.
\<close>

lemma size_children: "(\<Sum>p\<leftarrow>children node. size (snd p)) < size node"
proof (cases node)
  case (TrieNode cs e f)
  have "(\<Sum>p\<leftarrow>cs. size (snd p)) \<le> size_list (size_prod (\<lambda>_. 0) size) cs"
    by (induction cs) auto
  with TrieNode show ?thesis by simp
qed

function collect :: "(trienode \<times> string) list \<Rightarrow> (string \<times> int) list \<Rightarrow> (string \<times> int) list" where
  "collect [] results = results"
| "collect ((current, current_prefix) # queue) results =
     collect (queue @ map (\<lambda>(ch, child). (child, current_prefix @ [ch])) (children current))
       (if is_end current then results @ [(current_prefix, frequency current)] else results)"
  by pat_completeness auto

termination
proof (relation "measure (\<lambda>(queue, results). \<Sum>p\<leftarrow>queue. size (fst p))")
  show "wf (measure (\<lambda>(queue, results). \<Sum>p\<leftarrow>queue. size (fst p)))" by simp
next
  fix current :: trienode and current_prefix :: string
    and queue :: "(trienode \<times> string) list" and results :: "(string \<times> int) list"
  have "(\<Sum>p\<leftarrow>map (\<lambda>(ch, child). (child, current_prefix @ [ch])) (children current). size (fst p))
          = (\<Sum>p\<leftarrow>children current. size (snd p))"
    by (simp add: comp_def case_prod_unfold)
  with size_children [of current]
  show "((queue @ map (\<lambda>(ch, child). (child, current_prefix @ [ch])) (children current),
           if is_end current then results @ [(current_prefix, frequency current)] else results),
          (current, current_prefix) # queue, results)
        \<in> measure (\<lambda>(queue, results). \<Sum>p\<leftarrow>queue. size (fst p))"
    by simp
qed

definition autocomplete :: "trienode \<Rightarrow> string \<Rightarrow> int \<Rightarrow> string list" where
  "autocomplete root prefix limit =
     (case walk root prefix of
        None \<Rightarrow> []
      | Some node \<Rightarrow>
          (let results = collect [(node, prefix)] [];
               results = sort_reverse snd results
           in map fst (slice_to results limit)))"

section \<open>Search engine\<close>

text \<open>
  The dictionary stored per document has the keys \<open>title\<close>, \<open>filename\<close> and
  \<open>length\<close>, the last one the decimal string of the number of tokens.
\<close>

record doc_meta =
  title :: string
  filename :: string
  length_str :: string

function str :: "nat \<Rightarrow> string" where
  "str n = (if n < 10 then [char_of (48 + n)] else str (n div 10) @ [char_of (48 + n mod 10)])"
  by pat_completeness auto
termination
  by (relation "measure id") auto

declare str.simps [simp del]

text \<open>
  The posting lists are \<^verbatim>\<open>LinkedList\<close> objects that the inverted index holds by
  reference: \<open>add_document\<close> fetches the list with \<open>get\<close> and appends to the object it
  got.  The objects live in \<open>lists\<close>, a store from references to list contents; the
  index maps a term to its reference and \<open>next_ref\<close> is the next unused reference.
  The buckets of the hash table and the nodes of the trie are reachable from one owner
  only and are held by value.
\<close>

record engine =
  inverted_index :: "nat hashtable"
  lists :: "nat \<Rightarrow> posting list"
  next_ref :: nat
  trie :: trienode
  documents :: "(int \<times> doc_meta) list"
  doc_counter :: int

definition CampusSearchEngine :: engine where
  "CampusSearchEngine =
     \<lparr>inverted_index = HashTable 1024, lists = (\<lambda>_. []), next_ref = 0,
      trie = TrieNode [] False 0, documents = [], doc_counter = 0\<rparr>"

text \<open>The loop that counts the tokens of a document into \<open>term_counts\<close>.\<close>

fun count_terms :: "string list \<Rightarrow> (string \<times> int) list \<Rightarrow> (string \<times> int) list" where
  "count_terms [] term_counts = term_counts"
| "count_terms (token # tokens) term_counts =
     count_terms tokens (dict_set term_counts token (dict_get_default term_counts token 0 + 1))"

text \<open>
  The loop over \<open>term_counts.items()\<close>.  It calls \<open>set\<close> of the hash table, so it
  and \<open>add_document\<close> return an option as well: \<open>None\<close> when that call does not
  return.
\<close>

fun index_terms :: "engine \<Rightarrow> int \<Rightarrow> (string \<times> int) list \<Rightarrow> engine option" where
  "index_terms E d [] = Some E"
| "index_terms E d ((term, freq) # rest) =
     do {
       (E1, postings) \<leftarrow>
         (case get (inverted_index E) term of
            None \<Rightarrow>
              do {
                index' \<leftarrow> set_ht (inverted_index E) term (next_ref E);
                Some (E\<lparr>inverted_index := index',
                        lists := (lists E)(next_ref E := []),
                        next_ref := next_ref E + 1\<rparr>, next_ref E)
              }
          | Some postings \<Rightarrow> Some (E, postings));
       index_terms
         (E1\<lparr>lists := (lists E1)(postings :=
                 append_ll (lists E1 postings) \<lparr>doc_id = d, term_freq = freq\<rparr>),
              trie := insert_trie (trie E1) term\<rparr>)
         d rest
     }"

definition add_document :: "engine \<Rightarrow> string \<Rightarrow> string \<Rightarrow> string \<Rightarrow> (engine \<times> int) option" where
  "add_document E title' content filename' =
     (let tokens = tokenize content in
      if tokens = [] then Some (E, - 1)
      else
        let d = doc_counter E + 1;
            E1 = E\<lparr>doc_counter := d,
                   documents := dict_set (documents E) d
                     \<lparr>title = title', filename = filename', length_str = str (length tokens)\<rparr>\<rparr>;
            term_counts = count_terms tokens []
        in map_option (\<lambda>E2. (E2, d)) (index_terms E1 d term_counts))"

text \<open>The scoring loops of \<open>_search\<close>: over the postings of one term, and over the candidate terms.\<close>

fun add_postings :: "posting list \<Rightarrow> (int \<times> int) list \<Rightarrow> (int \<times> int) list" where
  "add_postings [] doc_scores = doc_scores"
| "add_postings (p # ps) doc_scores =
     add_postings ps
       (dict_set doc_scores (doc_id p) (dict_get_default doc_scores (doc_id p) 0 + term_freq p))"

fun score_terms :: "engine \<Rightarrow> string list \<Rightarrow> (int \<times> int) list \<Rightarrow> (int \<times> int) list" where
  "score_terms E [] doc_scores = doc_scores"
| "score_terms E (term # terms) doc_scores =
     (case get (inverted_index E) term of
        None \<Rightarrow> score_terms E terms doc_scores
      | Some postings \<Rightarrow> score_terms E terms (add_postings (items (lists E postings)) doc_scores))"

text \<open>The first loop of \<open>_search\<close>, which collects the candidate terms of the query tokens.\<close>

definition candidates :: "engine \<Rightarrow> string list \<Rightarrow> bool \<Rightarrow> string list" where
  "candidates E query_tokens prefix =
     concat (map (\<lambda>token. if prefix then autocomplete (trie E) token 25 else [token]) query_tokens)"

definition search :: "engine \<Rightarrow> string \<Rightarrow> bool \<Rightarrow> (int \<times> int) list" where
  "search E query prefix =
     (let query_tokens = tokenize query in
      if query_tokens = [] then []
      else sort_reverse snd (score_terms E (candidates E query_tokens prefix) []))"

definition keyword_search :: "engine \<Rightarrow> string \<Rightarrow> (int \<times> int) list" where
  "keyword_search E query = search E query False"

definition prefix_search :: "engine \<Rightarrow> string \<Rightarrow> (int \<times> int) list" where
  "prefix_search E query = search E query True"

fun scan_documents :: "(int \<times> doc_meta) list \<Rightarrow> string \<Rightarrow> bool \<Rightarrow> (int \<times> int) list" where
  "scan_documents [] query_value prefix = []"
| "scan_documents ((d, meta) # docs) query_value prefix =
     (let filename' = lower (filename meta) in
      if filename' = [] then scan_documents docs query_value prefix
      else if (if prefix then startswith filename' query_value else contains filename' query_value)
      then (d, 1) # scan_documents docs query_value prefix
      else scan_documents docs query_value prefix)"

definition filename_search :: "engine \<Rightarrow> string \<Rightarrow> bool \<Rightarrow> (int \<times> int) list" where
  "filename_search E query prefix =
     (let query_value = lower (strip query) in
      if query_value = [] then [] else scan_documents (documents E) query_value prefix)"

text \<open>Ingesting a sequence of documents (title, content, filename), one \<open>add_document\<close> each.\<close>

fun ingest :: "engine \<Rightarrow> (string \<times> string \<times> string) list \<Rightarrow> engine option" where
  "ingest E [] = Some E"
| "ingest E ((title', content, filename') # docs) =
     Option.bind (add_document E title' content filename') (\<lambda>(E', _). ingest E' docs)"

section \<open>Observations and specification-level definitions\<close>

text \<open>The posting list that the index holds for a term: empty when the term is absent.\<close>

definition postings_of :: "engine \<Rightarrow> string \<Rightarrow> posting list" where
  "postings_of E term' =
     (case get (inverted_index E) term' of None \<Rightarrow> [] | Some r \<Rightarrow> lists E r)"

text \<open>The frequency stored at the node that a term leads to; 0 when there is no such node.\<close>

definition freq_at :: "trienode \<Rightarrow> string \<Rightarrow> int" where
  "freq_at root word = (case walk root word of None \<Rightarrow> 0 | Some node \<Rightarrow> frequency node)"

text \<open>
  What holds of every engine state between two calls: the index is a well-formed
  table, the references it holds are allocated and no two terms share one, and no
  document id exceeds the counter.
\<close>

definition engine_inv :: "engine \<Rightarrow> bool" where
  "engine_inv E \<longleftrightarrow>
     ht_inv (inverted_index E) \<and>
     (\<forall>t r. get (inverted_index E) t = Some r \<longrightarrow> r < next_ref E) \<and>
     (\<forall>t t' r. get (inverted_index E) t = Some r \<and> get (inverted_index E) t' = Some r \<longrightarrow> t = t') \<and>
     (\<forall>d\<in>fst ` set (documents E). d \<le> doc_counter E)"

text \<open>
  The specification's view of a sequence of ingested documents: the token sequences
  of the documents that are accepted (those with at least one token), in order; they
  get the ids 1, 2, ...  The postings of a term are, for each accepted document that
  contains it, in order, the document's id with the number of occurrences.
\<close>

definition accepted :: "(string \<times> string \<times> string) list \<Rightarrow> string list list" where
  "accepted docs = filter (\<lambda>tokens. tokens \<noteq> []) (map (\<lambda>(title', content, filename'). tokenize content) docs)"

fun spec_postings_from :: "int \<Rightarrow> string list list \<Rightarrow> string \<Rightarrow> posting list" where
  "spec_postings_from n [] term' = []"
| "spec_postings_from n (tokens # rest) term' =
     (if term' \<in> set tokens
      then \<lparr>doc_id = n, term_freq = int (count_list tokens term')\<rparr> # spec_postings_from (n + 1) rest term'
      else spec_postings_from (n + 1) rest term')"

definition spec_postings :: "(string \<times> string \<times> string) list \<Rightarrow> string \<Rightarrow> posting list" where
  "spec_postings docs term' = spec_postings_from 1 (accepted docs) term'"

text \<open>The number of accepted documents that contain a term.\<close>

definition document_frequency :: "(string \<times> string \<times> string) list \<Rightarrow> string \<Rightarrow> int" where
  "document_frequency docs term' = int (length (filter (\<lambda>tokens. term' \<in> set tokens) (accepted docs)))"

text \<open>The elements of a list in the order of their first occurrence.\<close>

definition first_seen :: "'a list \<Rightarrow> 'a list" where
  "first_seen xs = rev (remdups (rev xs))"

text \<open>The summed term frequency of a document over a sequence of postings.\<close>

definition score_of :: "posting list \<Rightarrow> int \<Rightarrow> int" where
  "score_of ps d = (\<Sum>p\<leftarrow>ps. if doc_id p = d then term_freq p else 0)"

text \<open>
  The terms below a node, each with the frequency of the node that ends it:
  \<open>pre\<close> is the string that leads to the node.
\<close>

fun subtree_terms :: "trienode \<Rightarrow> string \<Rightarrow> (string \<times> int) list" where
  "subtree_terms (TrieNode cs e f) pre =
     (if e then [(pre, f)] else []) @
     concat (map (\<lambda>(ch, child). subtree_terms child (pre @ [ch])) cs)"

text \<open>Whether the node that a term leads to exists and ends a term.\<close>

definition end_at :: "trienode \<Rightarrow> string \<Rightarrow> bool" where
  "end_at root word = (case walk root word of None \<Rightarrow> False | Some node \<Rightarrow> is_end node)"

text \<open>The document table after a sequence of ingested documents, the first accepted one getting id \<open>n\<close>.\<close>

fun spec_documents_from :: "int \<Rightarrow> (string \<times> string \<times> string) list \<Rightarrow> (int \<times> doc_meta) list" where
  "spec_documents_from n [] = []"
| "spec_documents_from n ((title', content, filename') # docs) =
     (if tokenize content = [] then spec_documents_from n docs
      else (n, \<lparr>title = title', filename = filename', length_str = str (length (tokenize content))\<rparr>)
             # spec_documents_from (n + 1) docs)"

text \<open>The answer to a query of an engine that was created and then given a sequence of documents.\<close>

definition keyword_search_after :: "(string \<times> string \<times> string) list \<Rightarrow> string \<Rightarrow> (int \<times> int) list option" where
  "keyword_search_after docs query = map_option (\<lambda>E. keyword_search E query) (ingest CampusSearchEngine docs)"

definition prefix_search_after :: "(string \<times> string \<times> string) list \<Rightarrow> string \<Rightarrow> (int \<times> int) list option" where
  "prefix_search_after docs query = map_option (\<lambda>E. prefix_search E query) (ingest CampusSearchEngine docs)"

definition filename_search_after ::
  "(string \<times> string \<times> string) list \<Rightarrow> string \<Rightarrow> bool \<Rightarrow> (int \<times> int) list option" where
  "filename_search_after docs query prefix =
     map_option (\<lambda>E. filename_search E query prefix) (ingest CampusSearchEngine docs)"

text \<open>
  The documents of a sequence of postings, in the order in which the sequence first
  mentions them, each with its summed term frequency.
\<close>

definition spec_scored :: "posting list \<Rightarrow> (int \<times> int) list" where
  "spec_scored ps = map (\<lambda>d. (d, score_of ps d)) (first_seen (map doc_id ps))"

text \<open>
  The children of a node are a dictionary: no character occurs twice among them.
  This holds of the empty trie and \<open>insert\<close> keeps it.
\<close>

fun trie_ok :: "trienode \<Rightarrow> bool" where
  "trie_ok (TrieNode cs e f) = (distinct (map fst cs) \<and> (\<forall>p\<in>set cs. trie_ok (snd p)))"

section \<open>Tokenizer: the scan yields the maximal runs\<close>

lemma findall_runs: "\<forall>c\<in>set cur. alnum c \<Longrightarrow> runs (cur @ s) (findall cur s)"
proof (induction s arbitrary: cur)
  case Nil
  then show ?case by (auto intro: runs.intros)
next
  case (Cons c cs)
  show ?case
  proof (cases "alnum c")
    case True
    with Cons.prems have "\<forall>x\<in>set (cur @ [c]). alnum x" by simp
    from Cons.IH [OF this] True show ?thesis by simp
  next
    case False
    have "runs ([] @ cs) (findall [] cs)" by (rule Cons.IH) simp
    with False Cons.prems show ?thesis
      by (auto intro: runs.intros)
  qed
qed

lemma findall_append: "\<forall>c\<in>set r. alnum c \<Longrightarrow> findall cur (r @ s) = findall (cur @ r) s"
  by (induction r arbitrary: cur) auto

lemma runs_findall: "runs s ts \<Longrightarrow> ts = findall [] s"
proof (induction rule: runs.induct)
  case (runs_end r)
  then show ?case using findall_append [of r "[]" "[]"] by simp
next
  case (runs_run r c' s ts)
  then show ?case using findall_append [of r "[]" "c' # s"] by simp
qed simp_all

lemma runs_tokens: "runs s ts \<Longrightarrow> \<forall>t\<in>set ts. t \<noteq> [] \<and> set t \<subseteq> set s \<and> (\<forall>c\<in>set t. alnum c)"
  by (induction rule: runs.induct) auto

lemma lower_char_not_upper: "\<not> (65 \<le> ord (lower_char c) \<and> ord (lower_char c) \<le> 90)"
proof -
  have "ord c < 256" unfolding ord_def by simp
  then show ?thesis
    by (simp add: lower_char_def ord_def)
qed

section \<open>Tokenizer: claim\<close>

text \<open>
  C8.  For every input, the lowercased input has exactly one sequence of maximal runs
  of characters of the class \<^verbatim>\<open>[a-zA-Z0-9]\<close>, and \<open>tokenize\<close> returns that
  sequence, in order, without the members of the stopword set.  Every token is
  non-empty and consists of ASCII digits and lowercase letters.  The empty input
  yields the empty sequence, and \<^verbatim>\<open>"the quick fox and the lazy dog"\<close> yields
  \<^verbatim>\<open>["quick","fox","lazy","dog"]\<close>.
\<close>

theorem tokenize_maximal_runs:
  "(\<exists>ts. runs (lower text) ts \<and> (\<forall>ts'. runs (lower text) ts' \<longrightarrow> ts' = ts) \<and>
         tokenize text = filter (\<lambda>token. token \<notin> set STOPWORDS) ts) \<and>
   (\<forall>token\<in>set (tokenize text). token \<noteq> [] \<and>
      (\<forall>c\<in>set token. alnum c \<and> \<not> (65 \<le> ord c \<and> ord c \<le> 90))) \<and>
   tokenize [] = [] \<and>
   tokenize ''the quick fox and the lazy dog'' = [''quick'', ''fox'', ''lazy'', ''dog'']"
proof (intro conjI)
  have r: "runs (lower text) (findall [] (lower text))"
    using findall_runs [of "[]" "lower text"] by simp
  show "\<exists>ts. runs (lower text) ts \<and> (\<forall>ts'. runs (lower text) ts' \<longrightarrow> ts' = ts) \<and>
         tokenize text = filter (\<lambda>token. token \<notin> set STOPWORDS) ts"
  proof (intro exI [of _ "findall [] (lower text)"] conjI allI impI)
    show "runs (lower text) (findall [] (lower text))" by (rule r)
    show "ts' = findall [] (lower text)" if "runs (lower text) ts'" for ts'
      using that by (rule runs_findall)
    show "tokenize text = filter (\<lambda>token. token \<notin> set STOPWORDS) (findall [] (lower text))"
      by (simp add: tokenize_def)
  qed
  show "\<forall>token\<in>set (tokenize text). token \<noteq> [] \<and>
      (\<forall>c\<in>set token. alnum c \<and> \<not> (65 \<le> ord c \<and> ord c \<le> 90))"
  proof (intro ballI conjI)
    fix token assume "token \<in> set (tokenize text)"
    then have "token \<in> set (findall [] (lower text))" by (simp add: tokenize_def)
    with runs_tokens [OF r] have t: "token \<noteq> []" "set token \<subseteq> set (lower text)"
      "\<forall>c\<in>set token. alnum c" by blast+
    show "token \<noteq> []" by (rule t(1))
    fix c assume c: "c \<in> set token"
    with t(3) show "alnum c" by blast
    from c t(2) obtain c' where "c = lower_char c'" by (auto simp: lower_def)
    then show "\<not> (65 \<le> ord c \<and> ord c \<le> 90)" by (simp add: lower_char_not_upper)
  qed
  show "tokenize [] = []" by (simp add: tokenize_def lower_def)
  show "tokenize ''the quick fox and the lazy dog'' = [''quick'', ''fox'', ''lazy'', ''dog'']"
    by (simp add: tokenize_def lower_def lower_char_def ord_def alnum_def STOPWORDS_def)
qed

theorem tokenize_maximal_runs_witness:
  "runs (lower ''Hi, the fox'') [''hi'', ''the'', ''fox''] \<and>
   tokenize ''Hi, the fox'' = [''hi'', ''fox''] \<and>
   ''hi'' \<in> set (tokenize ''Hi, the fox'') \<and> alnum (CHR ''h'') \<and>
   \<not> (65 \<le> ord (CHR ''h'') \<and> ord (CHR ''h'') \<le> 90)"
proof -
  have l: "lower ''Hi, the fox'' = ''hi'' @ CHR '','' # CHR '' '' # ''the'' @ CHR '' '' # ''fox''"
    by code_simp
  have "runs ''fox'' [''fox'']"
    by (rule runs_end) (simp_all add: alnum_def ord_def)
  then have "runs (''the'' @ CHR '' '' # ''fox'') [''the'', ''fox'']"
    by (rule runs_run [rotated 3]) (simp_all add: alnum_def ord_def)
  then have "runs (CHR '' '' # ''the'' @ CHR '' '' # ''fox'') [''the'', ''fox'']"
    by (rule runs_sep [rotated]) (simp add: alnum_def ord_def)
  then have "runs (''hi'' @ CHR '','' # CHR '' '' # ''the'' @ CHR '' '' # ''fox'') [''hi'', ''the'', ''fox'']"
    by (rule runs_run [rotated 3]) (simp_all add: alnum_def ord_def)
  with l have r: "runs (lower ''Hi, the fox'') [''hi'', ''the'', ''fox'']" by simp
  from tokenize_maximal_runs [of "''Hi, the fox''"] obtain ts where
    ts: "\<forall>ts'. runs (lower ''Hi, the fox'') ts' \<longrightarrow> ts' = ts"
      "tokenize ''Hi, the fox'' = filter (\<lambda>token. token \<notin> set STOPWORDS) ts"
    and tk: "\<forall>token\<in>set (tokenize ''Hi, the fox''). token \<noteq> [] \<and>
      (\<forall>c\<in>set token. alnum c \<and> \<not> (65 \<le> ord c \<and> ord c \<le> 90))"
    by blast
  from ts(1) r have "ts = [''hi'', ''the'', ''fox'']" by blast
  with ts(2) have t: "tokenize ''Hi, the fox'' = [''hi'', ''fox'']"
    by (simp add: STOPWORDS_def)
  then have m: "''hi'' \<in> set (tokenize ''Hi, the fox'')" by simp
  with tk have "\<forall>c\<in>set ''hi''. alnum c \<and> \<not> (65 \<le> ord c \<and> ord c \<le> 90)" by blast
  then have "alnum (CHR ''h'') \<and> \<not> (65 \<le> ord (CHR ''h'') \<and> ord (CHR ''h'') \<le> 90)"
    by simp
  with r t m show ?thesis by (intro conjI) simp_all
qed

section \<open>Hash table: representation invariant and lookup\<close>

lemma hash_less: "0 < capacity T \<Longrightarrow> hash T key < capacity T"
  unfolding hash_def by (induction key rule: rev_induct) auto

lemma hash_cong: "capacity T' = capacity T \<Longrightarrow> hash T' key = hash T key"
  by (simp add: hash_def)

lemma append_ll_conv: "append_ll xs v = xs @ [v]"
  by (induction xs) auto

lemma find_ll_map_of:
  "(case find_ll b (\<lambda>kv. fst kv = k) of Some n \<Rightarrow> Some (snd (b ! n)) | None \<Rightarrow> None) = map_of b k"
  by (induction b) (auto split: option.splits)

lemma find_ll_None: "find_ll b (\<lambda>kv. fst kv = k) = None \<longleftrightarrow> k \<notin> fst ` set b"
  by (induction b) auto

lemma find_ll_Some: "find_ll b P = Some n \<Longrightarrow> n < length b \<and> P (b ! n)"
  by (induction b arbitrary: n) (auto split: if_splits)

lemma get_conv: "get T k = map_of (buckets T ! hash T k) k"
  by (simp add: get_def Let_def find_ll_map_of)

lemma map_fst_update: "n < length b \<Longrightarrow> fst (b ! n) = k \<Longrightarrow> map fst (b[n := (k, v)]) = map fst b"
  by (induction b arbitrary: n) (auto split: nat.splits)

lemma map_of_update:
  "distinct (map fst b) \<Longrightarrow> n < length b \<Longrightarrow> fst (b ! n) = k \<Longrightarrow>
   map_of (b[n := (k, v)]) = (map_of b)(k \<mapsto> v)"
proof (induction b arbitrary: n)
  case Nil
  then show ?case by simp
next
  case (Cons a b)
  show ?case
  proof (cases n)
    case 0
    with Cons.prems show ?thesis by (cases a) auto
  next
    case (Suc m)
    with Cons.prems have "map_of (b[m := (k, v)]) = (map_of b)(k \<mapsto> v)"
      by (intro Cons.IH) auto
    moreover have "fst a \<noteq> k"
    proof
      assume "fst a = k"
      moreover from Suc Cons.prems have "b ! m \<in> set b" "fst (b ! m) = k" by auto
      then have "k \<in> fst ` set b" by (metis imageI)
      ultimately show False using Cons.prems(1) by simp
    qed
    ultimately show ?thesis using Suc by (cases a) auto
  qed
qed

lemma length_concat_update:
  "i < length bs \<Longrightarrow> length (concat (bs[i := b])) + length (bs ! i) = length (concat bs) + length b"
  by (induction bs arbitrary: i) (auto split: nat.splits)

lemma in_concat_nth: "x \<in> set (concat bs) \<longleftrightarrow> (\<exists>j<length bs. x \<in> set (bs ! j))"
proof
  assume "x \<in> set (concat bs)"
  then obtain b where "b \<in> set bs" "x \<in> set b" by auto
  then show "\<exists>j<length bs. x \<in> set (bs ! j)" by (auto simp: in_set_conv_nth)
next
  assume "\<exists>j<length bs. x \<in> set (bs ! j)"
  then show "x \<in> set (concat bs)" by auto
qed

lemma distinct_concat_buckets:
  "(\<And>j. j < length bs \<Longrightarrow> distinct (map fst (bs ! j)) \<and> (\<forall>kv\<in>set (bs ! j). h (fst kv) = j + off)) \<Longrightarrow>
   distinct (map fst (concat bs))"
proof (induction bs arbitrary: off)
  case Nil
  then show ?case by simp
next
  case (Cons b bs)
  have b: "distinct (map fst b)" "\<forall>kv\<in>set b. h (fst kv) = off"
    using Cons.prems [of 0] by auto
  have rest: "j < length bs \<Longrightarrow> distinct (map fst (bs ! j)) \<and> (\<forall>kv\<in>set (bs ! j). h (fst kv) = j + Suc off)" for j
    using Cons.prems [of "Suc j"] by auto
  have d: "distinct (map fst (concat bs))"
    by (rule Cons.IH [of "Suc off"]) (use rest in blast)
  have "fst kv \<noteq> fst kv'" if "kv \<in> set b" "kv' \<in> set (concat bs)" for kv kv'
  proof -
    from that(2) obtain j where "j < length bs" "kv' \<in> set (bs ! j)"
      unfolding in_concat_nth by blast
    with rest have "h (fst kv') = j + Suc off" by blast
    moreover from b that(1) have "h (fst kv) = off" by blast
    ultimately show ?thesis by auto
  qed
  then have "fst ` set b \<inter> fst ` set (concat bs) = {}" by blast
  with b d show ?case by simp
qed

lemma wf_distinct: "ht_wf T \<Longrightarrow> distinct (map fst (entries T))"
  unfolding entries_def
  by (rule distinct_concat_buckets [where h = "hash T" and off = 0]) (simp add: ht_wf_def)

lemma wf_in_entries:
  assumes "ht_wf T"
  shows "(k, v) \<in> set (entries T) \<longleftrightarrow> get T k = Some v"
proof -
  from assms have c: "0 < capacity T" and l: "length (buckets T) = capacity T"
    by (auto simp: ht_wf_def)
  have h: "hash T k < capacity T" using c by (rule hash_less)
  with assms have d: "distinct (map fst (buckets T ! hash T k))" by (auto simp: ht_wf_def)
  have "(k, v) \<in> set (entries T) \<longleftrightarrow> (k, v) \<in> set (buckets T ! hash T k)"
  proof
    assume "(k, v) \<in> set (entries T)"
    then obtain j where j: "j < length (buckets T)" "(k, v) \<in> set (buckets T ! j)"
      unfolding entries_def in_concat_nth by blast
    with assms l have "hash T k = j" by (fastforce simp: ht_wf_def)
    with j show "(k, v) \<in> set (buckets T ! hash T k)" by simp
  next
    assume "(k, v) \<in> set (buckets T ! hash T k)"
    with h l show "(k, v) \<in> set (entries T)" unfolding entries_def in_concat_nth by auto
  qed
  also have "\<dots> \<longleftrightarrow> get T k = Some v" using d by (simp add: get_conv)
  finally show ?thesis .
qed

lemma wf_map_of_entries: "ht_wf T \<Longrightarrow> map_of (entries T) k = get T k"
  using wf_in_entries [of T k] wf_distinct [of T]
  by (cases "get T k") (auto simp: map_of_eq_None_iff image_iff)


lemma run_Set:
  "run (Set T key v) =
     (let index = hash T key; bucket = buckets T ! index
      in case find_ll bucket (\<lambda>kv. fst kv = key) of
           Some n \<Rightarrow> Some (T\<lparr>buckets := (buckets T)[index := bucket[n := (key, v)]]\<rparr>)
         | None \<Rightarrow>
            (let T1 = T\<lparr>buckets := (buckets T)[index := append_ll bucket (key, v)],
                        size_ht := size_ht T + 1\<rparr>
             in if 4 * size_ht T1 > 3 * capacity T1 then run (Resize T1) else Some T1))"
  by (subst run.simps) simp

lemma run_Resize:
  "run (Resize T) =
     run (Reinsert (T\<lparr>capacity := capacity T * 2, buckets := replicate (capacity T * 2) [],
                      size_ht := 0\<rparr>) (concat (buckets T)))"
  by (subst run.simps) (simp add: items_def [abs_def])

lemma run_Reinsert_Nil: "run (Reinsert T []) = Some T"
  by (subst run.simps) simp

lemma run_Reinsert_Cons:
  "run (Reinsert T ((key, v) # rest)) = Option.bind (run (Set T key v)) (\<lambda>T'. run (Reinsert T' rest))"
  by (subst run.simps) simp

lemma hash_update [simp]: "hash (T\<lparr>buckets := bs\<rparr>) = hash T" "hash (T\<lparr>size_ht := n\<rparr>) = hash T"
  by (simp_all add: hash_def fun_eq_iff)

lemma wf_update_bucket:
  assumes wf: "ht_wf T" and i: "i < capacity T"
    and d: "distinct (map fst b)" and h: "\<forall>kv\<in>set b. hash T (fst kv) = i"
    and s: "s + length (buckets T ! i) = size_ht T + length b"
  shows "ht_wf (T\<lparr>buckets := (buckets T)[i := b], size_ht := s\<rparr>)"
proof -
  from wf i have l: "i < length (buckets T)" by (simp add: ht_wf_def)
  from wf have "size_ht T = length (concat (buckets T))" by (simp add: ht_wf_def entries_def)
  with s length_concat_update [OF l, of b] have "s = length (concat ((buckets T)[i := b]))"
    by simp
  with wf d h l show ?thesis
    by (simp add: ht_wf_def entries_def nth_list_update)
qed

lemma get_update_bucket:
  assumes "ht_wf T" "i < capacity T"
  shows "get (T\<lparr>buckets := (buckets T)[i := b], size_ht := s\<rparr>) k =
           (if hash T k = i then map_of b k else get T k)"
  using assms by (simp add: get_conv ht_wf_def nth_list_update)

text \<open>set on a key that is present\<close>

lemma set_present:
  assumes wf: "ht_wf T" and g: "get T k = Some v0"
  shows "\<exists>T'. set_ht T k v = Some T' \<and> ht_wf T' \<and> capacity T' = capacity T \<and>
           size_ht T' = size_ht T \<and> get T' = (get T)(k \<mapsto> v)"
proof -
  define i where "i = hash T k"
  define b where "b = buckets T ! i"
  from wf have i: "i < capacity T" unfolding i_def by (intro hash_less) (simp add: ht_wf_def)
  from g have "map_of b k = Some v0" by (simp add: get_conv b_def i_def)
  then have "find_ll b (\<lambda>kv. fst kv = k) \<noteq> None"
    by (simp add: find_ll_None) (metis map_of_eq_None_iff option.distinct(1))
  then obtain n where n: "find_ll b (\<lambda>kv. fst kv = k) = Some n" by auto
  then have nb: "n < length b" "fst (b ! n) = k" using find_ll_Some by fastforce+
  define T' where "T' = T\<lparr>buckets := (buckets T)[i := b[n := (k, v)]], size_ht := size_ht T\<rparr>"
  from wf i have db: "distinct (map fst b)" and hb: "\<forall>kv\<in>set b. hash T (fst kv) = i"
    by (auto simp: ht_wf_def b_def)
  have keys: "map fst (b[n := (k, v)]) = map fst b" using nb by (rule map_fst_update)
  have "set_ht T k v = Some T'"
    using n by (simp add: set_ht_def run_Set i_def [symmetric] b_def [symmetric] T'_def)
  moreover have "ht_wf T'" unfolding T'_def
  proof (rule wf_update_bucket [OF wf i])
    show "distinct (map fst (b[n := (k, v)]))" using keys db by simp
    have "set (map fst (b[n := (k, v)])) = set (map fst b)" using keys by simp
    then have "fst ` set (b[n := (k, v)]) = fst ` set b" by simp
    show "\<forall>kv\<in>set (b[n := (k, v)]). hash T (fst kv) = i"
    proof
      fix kv assume "kv \<in> set (b[n := (k, v)])"
      then have "fst kv \<in> fst ` set (b[n := (k, v)])" by (rule imageI)
      with \<open>fst ` set (b[n := (k, v)]) = fst ` set b\<close>
      obtain kv' where "kv' \<in> set b" "fst kv' = fst kv" by auto
      with hb show "hash T (fst kv) = i" by metis
    qed
    show "size_ht T + length (buckets T ! i) = size_ht T + length (b[n := (k, v)])"
      by (simp add: b_def)
  qed
  moreover have "get T' = (get T)(k \<mapsto> v)"
  proof
    fix k'
    have "get T' k' = (if hash T k' = i then map_of (b[n := (k, v)]) k' else get T k')"
      unfolding T'_def by (rule get_update_bucket [OF wf i])
    also have "\<dots> = ((get T)(k \<mapsto> v)) k'"
      using map_of_update [OF db nb, of v] by (auto simp: get_conv b_def i_def)
    finally show "get T' k' = ((get T)(k \<mapsto> v)) k'" .
  qed
  ultimately show ?thesis by (auto simp: T'_def)
qed

text \<open>set on a new key, below the load limit: the entry is appended to its bucket\<close>

lemma set_absent_step:
  assumes wf: "ht_wf T" and g: "get T k = None"
  shows "\<exists>T1. ht_wf T1 \<and> capacity T1 = capacity T \<and> size_ht T1 = size_ht T + 1 \<and>
           get T1 = (get T)(k \<mapsto> v) \<and>
           set_ht T k v = (if 4 * size_ht T1 > 3 * capacity T1 then resize T1 else Some T1)"
proof -
  define i where "i = hash T k"
  define b where "b = buckets T ! i"
  from wf have i: "i < capacity T" unfolding i_def by (intro hash_less) (simp add: ht_wf_def)
  from g have m: "map_of b k = None" by (simp add: get_conv b_def i_def)
  then have n: "find_ll b (\<lambda>kv. fst kv = k) = None"
    by (simp add: find_ll_None map_of_eq_None_iff)
  define T1 where "T1 = T\<lparr>buckets := (buckets T)[i := b @ [(k, v)]], size_ht := size_ht T + 1\<rparr>"
  from wf i have db: "distinct (map fst b)" and hb: "\<forall>kv\<in>set b. hash T (fst kv) = i"
    by (auto simp: ht_wf_def b_def)
  have "set_ht T k v = (if 4 * size_ht T1 > 3 * capacity T1 then resize T1 else Some T1)"
    using n
    by (simp add: set_ht_def resize_def run_Set i_def [symmetric] b_def [symmetric] T1_def
          append_ll_conv Let_def)
  moreover have "ht_wf T1" unfolding T1_def
  proof (rule wf_update_bucket [OF wf i])
    show "distinct (map fst (b @ [(k, v)]))" using db m by (simp add: map_of_eq_None_iff)
    show "\<forall>kv\<in>set (b @ [(k, v)]). hash T (fst kv) = i" using hb by (auto simp: i_def)
    show "size_ht T + 1 + length (buckets T ! i) = size_ht T + length (b @ [(k, v)])"
      by (simp add: b_def)
  qed
  moreover have "get T1 = (get T)(k \<mapsto> v)"
  proof
    fix k'
    have "get T1 k' = (if hash T k' = i then map_of (b @ [(k, v)]) k' else get T k')"
      unfolding T1_def by (rule get_update_bucket [OF wf i])
    also have "\<dots> = ((get T)(k \<mapsto> v)) k'"
      using m by (auto simp: get_conv b_def i_def map_add_def split: option.splits)
    finally show "get T1 k' = ((get T)(k \<mapsto> v)) k'" .
  qed
  ultimately show ?thesis by (auto simp: T1_def)
qed

lemma set_absent:
  assumes wf: "ht_wf T" and g: "get T k = None"
    and load: "4 * (size_ht T + 1) \<le> 3 * capacity T"
  shows "\<exists>T'. set_ht T k v = Some T' \<and> ht_wf T' \<and> capacity T' = capacity T \<and>
           size_ht T' = size_ht T + 1 \<and> get T' = (get T)(k \<mapsto> v)"
proof -
  from set_absent_step [OF wf g, of v] obtain T1 where
    "ht_wf T1" "capacity T1 = capacity T" "size_ht T1 = size_ht T + 1"
    "get T1 = (get T)(k \<mapsto> v)"
    "set_ht T k v = (if 4 * size_ht T1 > 3 * capacity T1 then resize T1 else Some T1)"
    by blast
  with load show ?thesis by auto
qed

lemma reinsert:
  assumes "ht_wf T" "distinct (map fst kvs)" "\<forall>k\<in>fst ` set kvs. get T k = None"
    and "4 * (size_ht T + length kvs) \<le> 3 * capacity T"
  shows "\<exists>T'. run (Reinsert T kvs) = Some T' \<and> ht_wf T' \<and> capacity T' = capacity T \<and>
           size_ht T' = size_ht T + length kvs \<and> get T' = get T ++ map_of kvs"
  using assms
proof (induction kvs arbitrary: T)
  case Nil
  then show ?case by (simp add: run_Reinsert_Nil)
next
  case (Cons kv rest)
  obtain k v where kv: "kv = (k, v)" by (cases kv)
  from Cons.prems kv have g: "get T k = None" by simp
  from Cons.prems have load: "4 * (size_ht T + 1) \<le> 3 * capacity T" by simp
  from set_absent [OF Cons.prems(1) g load, of v] obtain T1 where T1:
    "set_ht T k v = Some T1" "ht_wf T1" "capacity T1 = capacity T"
    "size_ht T1 = size_ht T + 1" "get T1 = (get T)(k \<mapsto> v)"
    by blast
  from Cons.prems kv have k: "k \<notin> fst ` set rest" and d: "distinct (map fst rest)" by auto
  have "\<forall>k'\<in>fst ` set rest. get T1 k' = None"
    using Cons.prems(3) k T1(5) by auto
  moreover have "4 * (size_ht T1 + length rest) \<le> 3 * capacity T1"
    using Cons.prems(4) T1 by simp
  ultimately obtain T' where T':
    "run (Reinsert T1 rest) = Some T'" "ht_wf T'" "capacity T' = capacity T1"
    "size_ht T' = size_ht T1 + length rest" "get T' = get T1 ++ map_of rest"
    using Cons.IH [OF T1(2) d] by blast
  have r: "run (Reinsert T (kv # rest)) = Some T'"
    using T1(1) T'(1) by (simp add: kv run_Reinsert_Cons set_ht_def)
  have c: "capacity T' = capacity T" using T'(3) T1(3) by simp
  have sz: "size_ht T' = size_ht T + length (kv # rest)" using T'(4) T1(4) by simp
  have "get T' = get T ++ map_of (kv # rest)"
  proof
    fix k'
    from k have "k' = k \<Longrightarrow> map_of rest k' = None" by (simp add: map_of_eq_None_iff)
    then show "get T' k' = (get T ++ map_of (kv # rest)) k'"
      by (auto simp: T'(5) T1(5) kv map_add_def split: option.splits)
  qed
  with r T'(2) c sz show ?case by blast
qed

lemma wf_empty:
  assumes "8 \<le> capacity T" "buckets T = replicate (capacity T) []" "size_ht T = 0"
  shows "ht_wf T" "get T k = None"
proof -
  show "ht_wf T" using assms by (simp add: ht_wf_def entries_def)
  have "hash T k < capacity T" using assms(1) by (intro hash_less) simp
  then show "get T k = None" using assms(2) by (simp add: get_conv)
qed

lemma distinct_fst: "distinct (map fst xs) \<Longrightarrow> distinct xs"
  by (simp add: distinct_map)

lemma wf_mset_entries:
  assumes "ht_wf T" "ht_wf T'" "get T' = get T"
  shows "mset (entries T') = mset (entries T)"
proof -
  have "set (entries T') = set (entries T)"
  proof (rule set_eqI)
    fix kv :: "string \<times> 'a"
    obtain k v where "kv = (k, v)" by (cases kv)
    then show "kv \<in> set (entries T') \<longleftrightarrow> kv \<in> set (entries T)"
      using assms by (simp add: wf_in_entries)
  qed
  moreover have "distinct (entries T)" "distinct (entries T')"
    using assms by (auto intro: distinct_fst wf_distinct)
  ultimately show ?thesis by (simp add: set_eq_iff_mset_eq_distinct)
qed

lemma resize_wf:
  assumes wf: "ht_wf T" and load: "2 * size_ht T \<le> 3 * capacity T"
  shows "\<exists>T'. resize T = Some T' \<and> ht_wf T' \<and> capacity T' = 2 * capacity T \<and>
           size_ht T' = size_ht T \<and> get T' = get T"
proof -
  define T0 where "T0 = T\<lparr>capacity := capacity T * 2, buckets := replicate (capacity T * 2) [],
                         size_ht := 0\<rparr>"
  from wf have c: "8 \<le> capacity T0" by (simp add: T0_def ht_wf_def)
  have e: "ht_wf T0" "\<And>k. get T0 k = None"
    using wf_empty [of T0] c by (simp_all add: T0_def)
  have s: "size_ht T = length (entries T)" using wf by (simp add: ht_wf_def)
  have "\<exists>T'. run (Reinsert T0 (entries T)) = Some T' \<and> ht_wf T' \<and> capacity T' = capacity T0 \<and>
           size_ht T' = size_ht T0 + length (entries T) \<and> get T' = get T0 ++ map_of (entries T)"
  proof (rule reinsert [OF e(1) wf_distinct [OF wf]])
    show "\<forall>k\<in>fst ` set (entries T). get T0 k = None" using e(2) by simp
    show "4 * (size_ht T0 + length (entries T)) \<le> 3 * capacity T0"
      using load s by (simp add: T0_def)
  qed
  then obtain T' where T': "run (Reinsert T0 (entries T)) = Some T'" "ht_wf T'"
    "capacity T' = capacity T0" "size_ht T' = size_ht T0 + length (entries T)"
    "get T' = get T0 ++ map_of (entries T)" by blast
  have "get T' = get T"
  proof
    fix k show "get T' k = get T k"
      using e(2) [of k] wf_map_of_entries [OF wf, of k]
      by (simp add: T'(5) map_add_def split: option.splits)
  qed
  moreover have "resize T = Some T'"
    using T'(1) by (simp add: resize_def run_Resize T0_def entries_def)
  ultimately show ?thesis using T' s by (simp add: T0_def)
qed

lemma set_inv:
  assumes inv: "ht_inv T"
  shows "\<exists>T'. set_ht T k v = Some T' \<and> ht_inv T' \<and> get T' = (get T)(k \<mapsto> v) \<and>
           size_ht T' = (if get T k = None then size_ht T + 1 else size_ht T) \<and>
           (capacity T' = capacity T \<or> capacity T' = 2 * capacity T)"
proof (cases "get T k")
  case (Some v0)
  from inv have wf: "ht_wf T" by (simp add: ht_inv_def)
  from set_present [OF wf Some, of v] inv Some show ?thesis
    by (auto simp: ht_inv_def)
next
  case None
  from inv have wf: "ht_wf T" and load: "4 * size_ht T \<le> 3 * capacity T"
    and c: "8 \<le> capacity T"
    by (simp_all add: ht_inv_def ht_wf_def)
  from set_absent_step [OF wf None, of v] obtain T1 where T1:
    "ht_wf T1" "capacity T1 = capacity T" "size_ht T1 = size_ht T + 1"
    "get T1 = (get T)(k \<mapsto> v)"
    "set_ht T k v = (if 4 * size_ht T1 > 3 * capacity T1 then resize T1 else Some T1)"
    by blast
  show ?thesis
  proof (cases "4 * size_ht T1 > 3 * capacity T1")
    case False
    with T1 None show ?thesis by (auto simp: ht_inv_def)
  next
    case True
    have "2 * size_ht T1 \<le> 3 * capacity T1" using T1 load c by simp
    from resize_wf [OF T1(1) this] obtain T' where
      "resize T1 = Some T'" "ht_wf T'" "capacity T' = 2 * capacity T1"
      "size_ht T' = size_ht T1" "get T' = get T1" by blast
    with True T1 None load c show ?thesis by (auto simp: ht_inv_def)
  qed
qed

lemma inv_HashTable: "ht_inv (HashTable c)" "get (HashTable c) k = None"
proof -
  have "8 \<le> capacity (HashTable c)" "buckets (HashTable c) = replicate (capacity (HashTable c)) []"
    "size_ht (HashTable c) = 0"
    by (simp_all add: HashTable_def)
  then have "ht_wf (HashTable c)" "get (HashTable c) k = None"
    by (rule wf_empty)+
  then show "ht_inv (HashTable c)" "get (HashTable c) k = None"
    by (simp_all add: ht_inv_def HashTable_def)
qed

lemma set_all_inv:
  assumes "ht_inv T"
  shows "\<exists>T'. set_all T kvs = Some T' \<and> ht_inv T' \<and>
           (\<forall>k. get T' k = (case map_of (rev kvs) k of None \<Rightarrow> get T k | Some v \<Rightarrow> Some v))"
  using assms
proof (induction kvs arbitrary: T)
  case Nil
  then show ?case by simp
next
  case (Cons kv kvs)
  obtain k v where kv: "kv = (k, v)" by (cases kv)
  from set_inv [OF Cons.prems, of k v] obtain T1 where T1:
    "set_ht T k v = Some T1" "ht_inv T1" "get T1 = (get T)(k \<mapsto> v)" by blast
  from Cons.IH [OF T1(2)] obtain T' where T':
    "set_all T1 kvs = Some T'" "ht_inv T'"
    "\<And>k'. get T' k' = (case map_of (rev kvs) k' of None \<Rightarrow> get T1 k' | Some v \<Rightarrow> Some v)"
    by blast
  have "set_all T (kv # kvs) = Some T'" using T1(1) T'(1) by (simp add: kv)
  moreover have "get T' k' = (case map_of (rev (kv # kvs)) k' of None \<Rightarrow> get T k' | Some v \<Rightarrow> Some v)"
    for k'
    by (simp add: T'(3) T1(3) kv map_add_def split: option.splits)
  ultimately show ?case using T'(2) by blast
qed

lemma filter_key_distinct:
  "distinct (map fst xs) \<Longrightarrow> (k, v) \<in> set xs \<Longrightarrow> filter (\<lambda>kv. fst kv = k) xs = [(k, v)]"
proof (induction xs)
  case Nil
  then show ?case by simp
next
  case (Cons x xs)
  show ?case
  proof (cases "x = (k, v)")
    case True
    with Cons.prems have "\<forall>kv\<in>set xs. fst kv \<noteq> k" by (auto simp: image_iff)
    then have "filter (\<lambda>kv. fst kv = k) xs = []" by (simp add: filter_empty_conv)
    with True show ?thesis by simp
  next
    case False
    with Cons.prems have "(k, v) \<in> set xs" by simp
    moreover from this Cons.prems have "fst x \<noteq> k" by (auto simp: image_iff)
    ultimately show ?thesis using Cons by simp
  qed
qed


lemma size_ge_keys:
  assumes wf: "ht_wf T" and d: "distinct ks" and g: "\<forall>k\<in>set ks. get T k \<noteq> None"
  shows "length ks \<le> size_ht T"
proof -
  have "set ks \<subseteq> set (map fst (entries T))"
  proof
    fix k assume "k \<in> set ks"
    with g obtain v where "get T k = Some v" by auto
    then have "(k, v) \<in> set (entries T)" using wf by (simp add: wf_in_entries)
    then show "k \<in> set (map fst (entries T))" by force
  qed
  then have "card (set ks) \<le> card (set (map fst (entries T)))"
    by (intro card_mono) simp_all
  also have "\<dots> \<le> length (map fst (entries T))" by (rule card_length)
  finally show ?thesis using d wf by (simp add: distinct_card ht_wf_def)
qed

section \<open>Hash table: lookup after insertion, growth\<close>

text \<open>
  C3.  In every state of the table (\<open>ht_inv\<close>, which holds of the constructor's
  result and is kept by \<open>set\<close>), \<open>set(key, v)\<close> returns, and \<open>get(key)\<close> then
  returns \<open>v\<close>.  When the key was present the size and the number of entries are
  unchanged; in either case the table then holds exactly one entry for the key.
  After any further sequence of \<open>set\<close> calls on other keys, whatever resizes they
  trigger, \<open>get(key)\<close> still returns \<open>v\<close>.
\<close>

theorem get_after_set:
  assumes "ht_inv T"
  shows "\<exists>T1. set_ht T key v = Some T1 \<and> ht_inv T1 \<and> get T1 key = Some v \<and>
           (get T key \<noteq> None \<longrightarrow> size_ht T1 = size_ht T \<and> length (entries T1) = length (entries T)) \<and>
           filter (\<lambda>kv. fst kv = key) (entries T1) = [(key, v)] \<and>
           (\<forall>kvs. key \<notin> fst ` set kvs \<longrightarrow>
              (\<exists>T2. set_all T1 kvs = Some T2 \<and> ht_inv T2 \<and> get T2 key = Some v))"
proof -
  from set_inv [OF assms, of key v] obtain T1 where T1:
    "set_ht T key v = Some T1" "ht_inv T1" "get T1 = (get T)(key \<mapsto> v)"
    "size_ht T1 = (if get T key = None then size_ht T + 1 else size_ht T)" by blast
  from T1(2) assms have wf: "ht_wf T1" "ht_wf T" by (simp_all add: ht_inv_def)
  have g: "get T1 key = Some v" by (simp add: T1(3))
  have "get T key \<noteq> None \<longrightarrow> size_ht T1 = size_ht T \<and> length (entries T1) = length (entries T)"
    using T1(4) wf by (auto simp: ht_wf_def)
  moreover have "filter (\<lambda>kv. fst kv = key) (entries T1) = [(key, v)]"
    using wf_distinct [OF wf(1)] g wf_in_entries [OF wf(1), of key v]
    by (intro filter_key_distinct) simp_all
  moreover have "\<exists>T2. set_all T1 kvs = Some T2 \<and> ht_inv T2 \<and> get T2 key = Some v"
    if "key \<notin> fst ` set kvs" for kvs
  proof -
    from that have "map_of (rev kvs) key = None" by (simp add: map_of_eq_None_iff)
    with set_all_inv [OF T1(2), of kvs] g show ?thesis by auto
  qed
  ultimately show ?thesis using T1(1,2) g by blast
qed


theorem get_after_set_witness:
  "ht_inv (HashTable 8 :: nat hashtable) \<and>
   (\<exists>T1. set_ht (HashTable 8) ''cat'' (1 :: nat) = Some T1 \<and> get T1 ''cat'' = Some 1 \<and>
      (\<exists>T2. set_all T1 [(''a'', 2), (''b'', 3), (''c'', 4), (''d'', 5), (''e'', 6), (''f'', 7),
                          (''g'', 8), (''h'', 9)] = Some T2 \<and>
            8 < capacity T2 \<and> get T2 ''cat'' = Some 1))"
proof -
  define kvs where "kvs = [(''a'', 2 :: nat), (''b'', 3), (''c'', 4), (''d'', 5), (''e'', 6),
      (''f'', 7), (''g'', 8), (''h'', 9)]"
  have i: "ht_inv (HashTable 8 :: nat hashtable)" by (rule inv_HashTable)
  from get_after_set [OF i, of "''cat''" 1] obtain T1 where T1:
    "set_ht (HashTable 8) ''cat'' (1 :: nat) = Some T1" "ht_inv T1" "get T1 ''cat'' = Some 1"
    "\<forall>kvs. ''cat'' \<notin> fst ` set kvs \<longrightarrow>
       (\<exists>T2. set_all T1 kvs = Some T2 \<and> ht_inv T2 \<and> get T2 ''cat'' = Some 1)"
    by blast
  have "''cat'' \<notin> fst ` set kvs" by (simp add: kvs_def)
  with T1(4) obtain T2 where T2: "set_all T1 kvs = Some T2" "ht_inv T2" "get T2 ''cat'' = Some 1"
    by blast
  from set_all_inv [OF T1(2), of kvs] T2(1)
  have g: "get T2 k = (case map_of (rev kvs) k of None \<Rightarrow> get T1 k | Some v \<Rightarrow> Some v)" for k
    by auto
  have "\<forall>k\<in>set (''cat'' # map fst kvs). get T2 k \<noteq> None"
    by (simp add: g T1(3) kvs_def)
  moreover have "distinct (''cat'' # map fst kvs)" by (simp add: kvs_def)
  moreover from T2(2) have "ht_wf T2" by (simp add: ht_inv_def)
  ultimately have "length (''cat'' # map fst kvs) \<le> size_ht T2"
    by (intro size_ge_keys)
  then have "9 \<le> size_ht T2" by (simp add: kvs_def)
  with T2(2) have "8 < capacity T2" by (simp add: ht_inv_def)
  with T1(1,3) T2(1,3) i show ?thesis unfolding kvs_def by blast
qed

text \<open>
  C4.  Inserting any sequence of pairs with distinct keys into a table built with
  capacity 8 returns a table whose size is the number of pairs, in which \<open>get\<close>
  finds every inserted key with its value, and whose entries are exactly the inserted
  pairs, each once; its load is at most three quarters, so that the capacity has
  grown with the number of pairs.  A resize of a well-formed table that is at most
  one and a half times full (every table on which \<open>set\<close> calls it) returns, doubles
  the capacity and keeps the size, every lookup and the entries as a multiset.
\<close>

theorem resize_preserves_entries:
  "(distinct (map fst kvs) \<longrightarrow>
      (\<exists>T. set_all (HashTable 8) kvs = Some T \<and> size_ht T = length kvs \<and>
           (\<forall>(k, v)\<in>set kvs. get T k = Some v) \<and> mset (entries T) = mset kvs \<and>
           4 * length kvs \<le> 3 * capacity T)) \<and>
   (ht_wf T \<and> 2 * size_ht T \<le> 3 * capacity T \<longrightarrow>
      (\<exists>T'. resize T = Some T' \<and> capacity T' = 2 * capacity T \<and> size_ht T' = size_ht T \<and>
            get T' = get T \<and> mset (entries T') = mset (entries T)))"
proof (intro conjI impI)
  assume d: "distinct (map fst kvs)"
  from set_all_inv [OF inv_HashTable(1), of 8 kvs] obtain T where T:
    "set_all (HashTable 8) kvs = Some T" "ht_inv T"
    "\<And>k. get T k = (case map_of (rev kvs) k of None \<Rightarrow> get (HashTable 8) k | Some v \<Rightarrow> Some v)"
    by blast
  from T(2) have wf: "ht_wf T" by (simp add: ht_inv_def)
  from d have dr: "distinct (map fst (rev kvs))" by (simp add: rev_map [symmetric])
  have g: "get T k = Some v \<longleftrightarrow> (k, v) \<in> set kvs" for k v
    using map_of_eq_Some_iff [OF dr, of k v]
    by (cases "map_of (rev kvs) k") (simp_all add: T(3) inv_HashTable(2))
  have "set (entries T) = set kvs"
  proof (rule set_eqI)
    fix kv :: "string \<times> 'a"
    obtain k v where "kv = (k, v)" by (cases kv)
    then show "kv \<in> set (entries T) \<longleftrightarrow> kv \<in> set kvs"
      using wf_in_entries [OF wf, of k v] g by simp
  qed
  moreover have "distinct (entries T)" "distinct kvs"
    using wf d by (auto intro: distinct_fst wf_distinct)
  ultimately have m: "mset (entries T) = mset kvs" by (simp add: set_eq_iff_mset_eq_distinct)
  then have "length (entries T) = length kvs" by (metis size_mset)
  with wf have sz: "size_ht T = length kvs" by (simp add: ht_wf_def)
  moreover from this T(2) have "4 * length kvs \<le> 3 * capacity T" by (simp add: ht_inv_def)
  ultimately show "\<exists>T. set_all (HashTable 8) kvs = Some T \<and> size_ht T = length kvs \<and>
           (\<forall>(k, v)\<in>set kvs. get T k = Some v) \<and> mset (entries T) = mset kvs \<and>
           4 * length kvs \<le> 3 * capacity T"
    using T(1) m g by auto
next
  assume a: "ht_wf T \<and> 2 * size_ht T \<le> 3 * capacity T"
  then obtain T' where T': "resize T = Some T'" "ht_wf T'" "capacity T' = 2 * capacity T"
    "size_ht T' = size_ht T" "get T' = get T"
    using resize_wf [of T] by blast
  from a T' have "mset (entries T') = mset (entries T)" by (intro wf_mset_entries) simp_all
  with T' show "\<exists>T'. resize T = Some T' \<and> capacity T' = 2 * capacity T \<and> size_ht T' = size_ht T \<and>
            get T' = get T \<and> mset (entries T') = mset (entries T)" by blast
qed


theorem resize_preserves_entries_witness:
  "distinct (map fst [(''a'', 1 :: nat), (''b'', 2), (''c'', 3), (''d'', 4), (''e'', 5), (''f'', 6), (''g'', 7),
      (''h'', 8), (''i'', 9), (''j'', 10), (''k'', 11), (''l'', 12), (''m'', 13)]) \<and>
   (\<exists>T. set_all (HashTable 8) [(''a'', 1 :: nat), (''b'', 2), (''c'', 3), (''d'', 4), (''e'', 5), (''f'', 6), (''g'', 7),
      (''h'', 8), (''i'', 9), (''j'', 10), (''k'', 11), (''l'', 12), (''m'', 13)] = Some T \<and>
        size_ht T = 13 \<and> get T ''m'' = Some 13 \<and> 16 < capacity T) \<and>
   ht_wf (HashTable 8 :: nat hashtable) \<and>
   2 * size_ht (HashTable 8 :: nat hashtable) \<le> 3 * capacity (HashTable 8 :: nat hashtable) \<and>
   (\<exists>T'. resize (HashTable 8 :: nat hashtable) = Some T' \<and> capacity T' = 16 \<and> size_ht T' = 0)"
proof -
  define kvs where "kvs = [(''a'', 1 :: nat), (''b'', 2), (''c'', 3), (''d'', 4), (''e'', 5), (''f'', 6), (''g'', 7),
      (''h'', 8), (''i'', 9), (''j'', 10), (''k'', 11), (''l'', 12), (''m'', 13)]"
  define H where "H = (HashTable 8 :: nat hashtable)"
  have "ht_inv H" unfolding H_def by (rule inv_HashTable)
  then have w: "ht_wf H" by (simp add: ht_inv_def)
  have l: "2 * size_ht H \<le> 3 * capacity H" by (simp add: H_def HashTable_def)
  have d: "distinct (map fst kvs)" by (simp add: kvs_def)
  note inst = resize_preserves_entries [of kvs H, folded H_def]
  from inst [THEN conjunct1, rule_format, OF d]
  obtain T where T: "set_all H kvs = Some T" "size_ht T = length kvs"
    "\<forall>(k, v)\<in>set kvs. get T k = Some v" "4 * length kvs \<le> 3 * capacity T" by blast
  have "(''m'', 13) \<in> set kvs" by (simp add: kvs_def)
  with T(3) have "get T ''m'' = Some 13" by blast
  moreover have "size_ht T = 13" using T(2) by (simp add: kvs_def)
  moreover have "16 < capacity T" using T(4) by (simp add: kvs_def)
  ultimately have A: "\<exists>T. set_all H kvs = Some T \<and> size_ht T = 13 \<and> get T ''m'' = Some 13 \<and>
      16 < capacity T"
    using T(1) by blast
  from inst [THEN conjunct2, rule_format, OF conjI [OF w l]]
  obtain T' where "resize H = Some T'" "capacity T' = 2 * capacity H" "size_ht T' = size_ht H"
    by blast
  then have B: "\<exists>T'. resize H = Some T' \<and> capacity T' = 16 \<and> size_ht T' = 0"
    by (simp add: H_def HashTable_def)
  from d A w l B show ?thesis unfolding kvs_def H_def by (intro conjI)
qed

section \<open>Dictionaries, trie insertion\<close>

lemma dict_get_set: "dict_get (dict_set d k v) k' = (if k' = k then Some v else dict_get d k')"
  by (induction d) (auto simp: dict_get_def)

lemma keys_dict_set:
  "map fst (dict_set d k v) = (if k \<in> fst ` set d then map fst d else map fst d @ [k])"
  by (induction d) force+

lemma dict_set_fresh: "k \<notin> fst ` set d \<Longrightarrow> dict_set d k v = d @ [(k, v)]"
  by (induction d) auto

lemma dict_get_default_set:
  "dict_get_default (dict_set d k v) k' z = (if k' = k then v else dict_get_default d k' z)"
  using dict_get_set [of d k v k'] by (simp add: dict_get_default_def dict_get_def)

lemma first_seen_Nil [simp]: "first_seen [] = []"
  by (simp add: first_seen_def)

lemma first_seen_snoc:
  "first_seen (xs @ [x]) = (if x \<in> set xs then first_seen xs else first_seen xs @ [x])"
  by (simp add: first_seen_def)

lemma set_first_seen [simp]: "set (first_seen xs) = set xs"
  by (simp add: first_seen_def)

lemma distinct_first_seen [simp]: "distinct (first_seen xs)"
  by (simp add: first_seen_def)

lemma freq_at_empty [simp]: "freq_at (TrieNode [] False 0) w = 0"
  by (cases w) (simp_all add: freq_at_def dict_get_def)

lemma freq_at_Nil [simp]: "freq_at node [] = frequency node"
  by (simp add: freq_at_def)

lemma freq_at_Cons:
  "freq_at node (c # w) = (case dict_get (children node) c of None \<Rightarrow> 0 | Some child \<Rightarrow> freq_at child w)"
  by (simp add: freq_at_def split: option.splits)

lemma freq_at_insert:
  "freq_at (insert_trie node w) w' = freq_at node w' + (if w' = w then 1 else 0)"
proof (induction w arbitrary: node w')
  case Nil
  then show ?case by (cases w') (simp_all add: freq_at_Cons)
next
  case (Cons ch word)
  show ?case
  proof (cases w')
    case Nil
    then show ?thesis by (simp add: Let_def)
  next
    case (Cons c' rest)
    then show ?thesis
      using Cons.IH
      by (auto simp: Let_def freq_at_Cons dict_get_set split: option.splits)
  qed
qed

lemma end_at_Cons:
  "end_at node (c # w) = (case dict_get (children node) c of None \<Rightarrow> False | Some child \<Rightarrow> end_at child w)"
  by (simp add: end_at_def split: option.splits)

lemma end_at_empty [simp]: "end_at (TrieNode [] False 0) w = False"
  by (cases w) (simp_all add: end_at_def dict_get_def)

lemma end_at_insert:
  "end_at (insert_trie node w) w' = (w' = w \<or> end_at node w')"
proof (induction w arbitrary: node w')
  case Nil
  then show ?case by (cases w') (simp_all add: end_at_Cons, simp add: end_at_def)
next
  case (Cons ch word)
  show ?case
  proof (cases w')
    case Nil
    then show ?thesis by (simp add: Let_def end_at_def)
  next
    case (Cons c' rest)
    then show ?thesis
      using Cons.IH
      by (auto simp: Let_def end_at_Cons dict_get_set split: option.splits)
  qed
qed


lemma index_terms_step:
  assumes inv: "engine_inv E"
  shows "\<exists>E2. index_terms E d ((t, f) # rest) = index_terms E2 d rest \<and> engine_inv E2 \<and>
     documents E2 = documents E \<and> doc_counter E2 = doc_counter E \<and>
     trie E2 = insert_trie (trie E) t \<and>
     (\<forall>t'. postings_of E2 t' =
        (if t' = t then postings_of E t @ [\<lparr>doc_id = d, term_freq = f\<rparr>] else postings_of E t')) \<and>
     (\<forall>t'. get (inverted_index E2) t' \<noteq> None \<longleftrightarrow> t' = t \<or> get (inverted_index E) t' \<noteq> None)"
proof (cases "get (inverted_index E) t")
  case None
  from inv have hi: "ht_inv (inverted_index E)" by (simp add: engine_inv_def)
  from set_inv [OF hi, of t "next_ref E"] obtain idx where idx:
    "set_ht (inverted_index E) t (next_ref E) = Some idx" "ht_inv idx"
    "get idx = (get (inverted_index E))(t \<mapsto> next_ref E)" by blast
  define E2 where "E2 = E\<lparr>inverted_index := idx,
      lists := (lists E)(next_ref E := [\<lparr>doc_id = d, term_freq = f\<rparr>]),
      next_ref := next_ref E + 1, trie := insert_trie (trie E) t\<rparr>"
  have 1: "index_terms E d ((t, f) # rest) = index_terms E2 d rest"
    using None idx(1)
    by (simp add: append_ll_conv)
       (rule arg_cong [where f = "\<lambda>E. index_terms E d rest"], simp add: E2_def)
  have 2: "engine_inv E2"
    using inv idx(2,3) unfolding engine_inv_def E2_def
    by (auto simp: less_Suc_eq split: if_splits)
  have 3: "postings_of E2 t' =
        (if t' = t then postings_of E t @ [\<lparr>doc_id = d, term_freq = f\<rparr>] else postings_of E t')" for t'
  proof (cases "t' = t")
    case True
    then show ?thesis using None idx(3) by (simp add: postings_of_def E2_def)
  next
    case False
    show ?thesis
    proof (cases "get (inverted_index E) t'")
      case None
      with False idx(3) show ?thesis by (simp add: postings_of_def E2_def)
    next
      case (Some r)
      with inv have "r < next_ref E" by (auto simp: engine_inv_def)
      with Some False idx(3) show ?thesis by (simp add: postings_of_def E2_def)
    qed
  qed
  have 4: "get (inverted_index E2) t' \<noteq> None \<longleftrightarrow> t' = t \<or> get (inverted_index E) t' \<noteq> None" for t'
    using idx(3) by (simp add: E2_def)
  from 1 2 3 4 show ?thesis by (intro exI [of _ E2]) (simp add: E2_def)
next
  case (Some r)
  define E2 where "E2 = E\<lparr>lists := (lists E)(r := lists E r @ [\<lparr>doc_id = d, term_freq = f\<rparr>]),
      trie := insert_trie (trie E) t\<rparr>"
  have 1: "index_terms E d ((t, f) # rest) = index_terms E2 d rest"
    using Some by (simp add: E2_def append_ll_conv)
  have 2: "engine_inv E2"
    using inv unfolding engine_inv_def E2_def by simp
  have 3: "postings_of E2 t' =
        (if t' = t then postings_of E t @ [\<lparr>doc_id = d, term_freq = f\<rparr>] else postings_of E t')" for t'
  proof (cases "get (inverted_index E) t'")
    case None
    with Some show ?thesis by (auto simp: postings_of_def E2_def)
  next
    case (Some r')
    with \<open>get (inverted_index E) t = Some r\<close> inv have "r' = r \<longleftrightarrow> t' = t"
      unfolding engine_inv_def by (metis option.inject)
    with Some \<open>get (inverted_index E) t = Some r\<close> show ?thesis
      by (auto simp: postings_of_def E2_def)
  qed
  have 4: "get (inverted_index E2) t' \<noteq> None \<longleftrightarrow> t' = t \<or> get (inverted_index E) t' \<noteq> None" for t'
    using Some by (auto simp: E2_def)
  from 1 2 3 4 show ?thesis by (intro exI [of _ E2]) (simp add: E2_def)
qed

lemma index_terms_loop:
  assumes "engine_inv E"
  shows "\<exists>E'. index_terms E d tcs = Some E' \<and> engine_inv E' \<and>
     documents E' = documents E \<and> doc_counter E' = doc_counter E \<and>
     trie E' = foldl insert_trie (trie E) (map fst tcs) \<and>
     (\<forall>t. postings_of E' t =
        postings_of E t @ map (\<lambda>(t', f). \<lparr>doc_id = d, term_freq = f\<rparr>) (filter (\<lambda>(t', f). t' = t) tcs)) \<and>
     (\<forall>t. get (inverted_index E') t \<noteq> None \<longleftrightarrow> t \<in> fst ` set tcs \<or> get (inverted_index E) t \<noteq> None)"
  using assms
proof (induction tcs arbitrary: E)
  case Nil
  then show ?case by simp
next
  case (Cons tc tcs)
  obtain t f where tc: "tc = (t, f)" by (cases tc)
  from index_terms_step [OF Cons.prems, of d t f tcs] obtain E2 where E2:
    "index_terms E d ((t, f) # tcs) = index_terms E2 d tcs" "engine_inv E2"
    "documents E2 = documents E" "doc_counter E2 = doc_counter E"
    "trie E2 = insert_trie (trie E) t"
    "\<And>t'. postings_of E2 t' =
        (if t' = t then postings_of E t @ [\<lparr>doc_id = d, term_freq = f\<rparr>] else postings_of E t')"
    "\<And>t'. get (inverted_index E2) t' \<noteq> None \<longleftrightarrow> t' = t \<or> get (inverted_index E) t' \<noteq> None"
    by blast
  from Cons.IH [OF E2(2)] obtain E' where E':
    "index_terms E2 d tcs = Some E'" "engine_inv E'"
    "documents E' = documents E2" "doc_counter E' = doc_counter E2"
    "trie E' = foldl insert_trie (trie E2) (map fst tcs)"
    "\<And>t. postings_of E' t =
        postings_of E2 t @ map (\<lambda>(t', f). \<lparr>doc_id = d, term_freq = f\<rparr>) (filter (\<lambda>(t', f). t' = t) tcs)"
    "\<And>t. get (inverted_index E') t \<noteq> None \<longleftrightarrow> t \<in> fst ` set tcs \<or> get (inverted_index E2) t \<noteq> None"
    by blast
  have a: "index_terms E d (tc # tcs) = Some E'" using E2(1) E'(1) tc by simp
  have b: "documents E' = documents E" "doc_counter E' = doc_counter E"
    using E2(3,4) E'(3,4) by simp_all
  have c: "trie E' = foldl insert_trie (trie E) (map fst (tc # tcs))"
    using E'(5) E2(5) tc by simp
  have d: "postings_of E' t' =
        postings_of E t' @ map (\<lambda>(t', f). \<lparr>doc_id = d, term_freq = f\<rparr>) (filter (\<lambda>(t'', f). t'' = t') (tc # tcs))"
    for t'
    by (simp add: E'(6) E2(6) tc)
  have e: "get (inverted_index E') t' \<noteq> None \<longleftrightarrow> t' \<in> fst ` set (tc # tcs) \<or> get (inverted_index E) t' \<noteq> None"
    for t'
    using E'(7) [of t'] E2(7) [of t'] tc by auto
  from a E'(2) b c d e show ?case by blast
qed


section \<open>Ingestion\<close>

lemma count_terms_snoc:
  "count_terms (tokens @ [t]) acc =
     dict_set (count_terms tokens acc) t (dict_get_default (count_terms tokens acc) t 0 + 1)"
  by (induction tokens arbitrary: acc) simp_all

lemma keys_count_terms: "map fst (count_terms tokens []) = first_seen tokens"
proof (induction tokens rule: rev_induct)
  case Nil
  then show ?case by simp
next
  case (snoc t tokens)
  have "fst ` set (count_terms tokens []) = set tokens"
    using snoc by (metis set_map set_first_seen)
  with snoc show ?case
    by (simp add: count_terms_snoc keys_dict_set first_seen_snoc)
qed

lemma value_count_terms:
  "dict_get_default (count_terms tokens []) t 0 = int (count_list tokens t)"
proof (induction tokens rule: rev_induct)
  case Nil
  then show ?case by (simp add: dict_get_default_def)
next
  case (snoc x tokens)
  then show ?case by (auto simp: count_terms_snoc dict_get_default_set)
qed

lemma filter_count_terms:
  "filter (\<lambda>(t', f). t' = t) (count_terms tokens []) =
     (if t \<in> set tokens then [(t, int (count_list tokens t))] else [])"
proof (cases "t \<in> set tokens")
  case False
  then have "t \<notin> fst ` set (count_terms tokens [])"
    using keys_count_terms [of tokens] by (metis set_map set_first_seen)
  then have "\<forall>kv\<in>set (count_terms tokens []). fst kv \<noteq> t" by (metis imageI)
  then have "filter (\<lambda>(t', f). t' = t) (count_terms tokens []) = []"
    by (auto simp: filter_empty_conv)
  with False show ?thesis by simp
next
  case True
  have d: "distinct (map fst (count_terms tokens []))" by (simp add: keys_count_terms)
  from True have "t \<in> fst ` set (count_terms tokens [])"
    using keys_count_terms [of tokens] by (metis set_map set_first_seen)
  then obtain v where v: "(t, v) \<in> set (count_terms tokens [])" by auto
  with d have "map_of (count_terms tokens []) t = Some v" by simp
  then have "v = int (count_list tokens t)"
    using value_count_terms [of tokens t] by (simp add: dict_get_default_def)
  moreover have "filter (\<lambda>kv. fst kv = t) (count_terms tokens []) = [(t, v)]"
    using d v by (rule filter_key_distinct)
  ultimately show ?thesis using True by (simp add: case_prod_unfold)
qed

lemma freq_at_foldl_insert:
  "freq_at (foldl insert_trie node ws) t = freq_at node t + int (count_list ws t)"
  by (induction ws arbitrary: node) (simp_all add: freq_at_insert)

lemma end_at_foldl_insert:
  "end_at (foldl insert_trie node ws) t \<longleftrightarrow> end_at node t \<or> t \<in> set ws"
  by (induction ws arbitrary: node) (auto simp: end_at_insert)

lemma count_list_first_seen: "count_list (first_seen xs) x = (if x \<in> set xs then 1 else 0)"
proof -
  have "distinct ys \<Longrightarrow> count_list ys x = (if x \<in> set ys then 1 else 0)" for ys :: "'a list"
    by (induction ys) auto
  from this [of "first_seen xs"] show ?thesis by simp
qed

lemma add_document_rejected:
  "tokenize content = [] \<Longrightarrow> add_document E title' content filename' = Some (E, - 1)"
  by (simp add: add_document_def)

lemma add_document_accepted:
  assumes inv: "engine_inv E" and tok: "tokenize content \<noteq> []"
  shows "\<exists>E'. add_document E title' content filename' = Some (E', doc_counter E + 1) \<and>
     engine_inv E' \<and> doc_counter E' = doc_counter E + 1 \<and>
     documents E' = documents E @
       [(doc_counter E + 1,
         \<lparr>title = title', filename = filename', length_str = str (length (tokenize content))\<rparr>)] \<and>
     trie E' = foldl insert_trie (trie E) (first_seen (tokenize content)) \<and>
     (\<forall>t. postings_of E' t = postings_of E t @
        (if t \<in> set (tokenize content)
         then [\<lparr>doc_id = doc_counter E + 1, term_freq = int (count_list (tokenize content) t)\<rparr>]
         else [])) \<and>
     (\<forall>t. get (inverted_index E') t \<noteq> None \<longleftrightarrow>
        t \<in> set (tokenize content) \<or> get (inverted_index E) t \<noteq> None)"
proof -
  let ?tokens = "tokenize content"
  let ?d = "doc_counter E + 1"
  let ?meta = "\<lparr>title = title', filename = filename', length_str = str (length ?tokens)\<rparr>"
  define E1 where "E1 = E\<lparr>doc_counter := ?d, documents := dict_set (documents E) ?d ?meta\<rparr>"
  from inv have le: "\<forall>d\<in>fst ` set (documents E). d \<le> doc_counter E"
    by (simp add: engine_inv_def)
  then have fresh: "?d \<notin> fst ` set (documents E)" by force
  then have docs: "documents E1 = documents E @ [(?d, ?meta)]"
    by (simp add: E1_def dict_set_fresh)
  have "\<forall>d\<in>fst ` set (documents E1). d \<le> doc_counter E1"
    unfolding docs using le by (auto simp: E1_def)
  moreover have "inverted_index E1 = inverted_index E" "next_ref E1 = next_ref E"
    by (simp_all add: E1_def)
  ultimately have inv1: "engine_inv E1" using inv by (simp add: engine_inv_def)
  from index_terms_loop [OF inv1, of ?d "count_terms ?tokens []"] obtain E' where E':
    "index_terms E1 ?d (count_terms ?tokens []) = Some E'" "engine_inv E'"
    "documents E' = documents E1" "doc_counter E' = doc_counter E1"
    "trie E' = foldl insert_trie (trie E1) (map fst (count_terms ?tokens []))"
    "\<And>t. postings_of E' t = postings_of E1 t @
       map (\<lambda>(t', f). \<lparr>doc_id = ?d, term_freq = f\<rparr>) (filter (\<lambda>(t', f). t' = t) (count_terms ?tokens []))"
    "\<And>t. get (inverted_index E') t \<noteq> None \<longleftrightarrow>
       t \<in> fst ` set (count_terms ?tokens []) \<or> get (inverted_index E1) t \<noteq> None"
    by blast
  have keys: "fst ` set (count_terms ?tokens []) = set ?tokens"
    using keys_count_terms [of ?tokens] by (metis set_map set_first_seen)
  have p1: "postings_of E1 t = postings_of E t" for t
    by (simp add: postings_of_def E1_def split: option.splits)
  show ?thesis
  proof (intro exI [of _ E'] conjI allI)
    show "add_document E title' content filename' = Some (E', ?d)"
      using tok E'(1) by (simp add: add_document_def Let_def E1_def [symmetric])
    show "engine_inv E'" by (rule E'(2))
    show "doc_counter E' = ?d" using E'(4) by (simp add: E1_def)
    show "documents E' = documents E @ [(?d, ?meta)]" using E'(3) docs by simp
    show "trie E' = foldl insert_trie (trie E) (first_seen ?tokens)"
      using E'(5) by (simp add: keys_count_terms E1_def)
    show "postings_of E' t = postings_of E t @
        (if t \<in> set ?tokens then [\<lparr>doc_id = ?d, term_freq = int (count_list ?tokens t)\<rparr>] else [])"
      for t
      by (simp add: E'(6) p1 filter_count_terms)
    show "get (inverted_index E') t \<noteq> None \<longleftrightarrow> t \<in> set ?tokens \<or> get (inverted_index E) t \<noteq> None"
      for t
      using E'(7) [of t] keys by (simp add: E1_def)
  qed
qed

lemma accepted_Cons:
  "accepted ((title', content, filename') # docs) =
     (if tokenize content = [] then accepted docs else tokenize content # accepted docs)"
  by (simp add: accepted_def)

lemma document_frequency_Cons:
  "document_frequency ((title', content, filename') # docs) t =
     (if t \<in> set (tokenize content) then 1 else 0) + document_frequency docs t"
  by (auto simp: document_frequency_def accepted_Cons)

lemma ingest_inv:
  assumes "engine_inv E"
  shows "\<exists>E'. ingest E docs = Some E' \<and> engine_inv E' \<and>
     doc_counter E' = doc_counter E + int (length (accepted docs)) \<and>
     documents E' = documents E @ spec_documents_from (doc_counter E + 1) docs \<and>
     (\<forall>t. postings_of E' t = postings_of E t @ spec_postings_from (doc_counter E + 1) (accepted docs) t) \<and>
     (\<forall>t. freq_at (trie E') t = freq_at (trie E) t + document_frequency docs t) \<and>
     (\<forall>t. end_at (trie E') t \<longleftrightarrow> end_at (trie E) t \<or> 0 < document_frequency docs t) \<and>
     (\<forall>t. get (inverted_index E') t \<noteq> None \<longleftrightarrow>
        get (inverted_index E) t \<noteq> None \<or> 0 < document_frequency docs t)"
  using assms
proof (induction docs arbitrary: E)
  case Nil
  then show ?case by (simp add: accepted_def document_frequency_def)
next
  case (Cons doc docs)
  obtain title' content filename' where doc: "doc = (title', content, filename')"
    by (cases doc)
  have df0: "0 \<le> document_frequency docs t" for t by (simp add: document_frequency_def)
  show ?case
  proof (cases "tokenize content = []")
    case True
    then have "ingest E (doc # docs) = ingest E docs"
      by (simp add: doc add_document_rejected)
    moreover have "accepted (doc # docs) = accepted docs"
      "spec_documents_from (doc_counter E + 1) (doc # docs) = spec_documents_from (doc_counter E + 1) docs"
      "\<And>t. document_frequency (doc # docs) t = document_frequency docs t"
      using True by (simp_all add: doc accepted_Cons document_frequency_Cons)
    ultimately show ?thesis using Cons.IH [OF Cons.prems] by simp
  next
    case False
    let ?tokens = "tokenize content"
    let ?d = "doc_counter E + 1"
    from add_document_accepted [OF Cons.prems False, of title' filename'] obtain E1 where E1:
      "add_document E title' content filename' = Some (E1, ?d)" "engine_inv E1"
      "doc_counter E1 = ?d"
      "documents E1 = documents E @
         [(?d, \<lparr>title = title', filename = filename', length_str = str (length ?tokens)\<rparr>)]"
      "trie E1 = foldl insert_trie (trie E) (first_seen ?tokens)"
      "\<And>t. postings_of E1 t = postings_of E t @
          (if t \<in> set ?tokens then [\<lparr>doc_id = ?d, term_freq = int (count_list ?tokens t)\<rparr>] else [])"
      "\<And>t. get (inverted_index E1) t \<noteq> None \<longleftrightarrow> t \<in> set ?tokens \<or> get (inverted_index E) t \<noteq> None"
      by blast
    from Cons.IH [OF E1(2)] obtain E' where E':
      "ingest E1 docs = Some E'" "engine_inv E'"
      "doc_counter E' = doc_counter E1 + int (length (accepted docs))"
      "documents E' = documents E1 @ spec_documents_from (doc_counter E1 + 1) docs"
      "\<And>t. postings_of E' t = postings_of E1 t @ spec_postings_from (doc_counter E1 + 1) (accepted docs) t"
      "\<And>t. freq_at (trie E') t = freq_at (trie E1) t + document_frequency docs t"
      "\<And>t. end_at (trie E') t \<longleftrightarrow> end_at (trie E1) t \<or> 0 < document_frequency docs t"
      "\<And>t. get (inverted_index E') t \<noteq> None \<longleftrightarrow>
          get (inverted_index E1) t \<noteq> None \<or> 0 < document_frequency docs t"
      by blast
    show ?thesis
    proof (intro exI [of _ E'] conjI allI)
      show "ingest E (doc # docs) = Some E'" using E1(1) E'(1) by (simp add: doc)
      show "engine_inv E'" by (rule E'(2))
      show "doc_counter E' = doc_counter E + int (length (accepted (doc # docs)))"
        using False E'(3) E1(3) by (simp add: doc accepted_Cons)
      show "documents E' = documents E @ spec_documents_from (doc_counter E + 1) (doc # docs)"
        using False E'(4) E1(3,4) by (simp add: doc)
      show "postings_of E' t =
          postings_of E t @ spec_postings_from (doc_counter E + 1) (accepted (doc # docs)) t" for t
        using False by (simp add: E'(5) E1(6) E1(3) doc accepted_Cons)
      show "freq_at (trie E') t = freq_at (trie E) t + document_frequency (doc # docs) t" for t
        by (simp add: E'(6) E1(5) freq_at_foldl_insert count_list_first_seen doc
              document_frequency_Cons)
      show "end_at (trie E') t \<longleftrightarrow> end_at (trie E) t \<or> 0 < document_frequency (doc # docs) t" for t
        using df0 [of t]
        by (auto simp: E'(7) E1(5) end_at_foldl_insert doc document_frequency_Cons)
      show "get (inverted_index E') t \<noteq> None \<longleftrightarrow>
          get (inverted_index E) t \<noteq> None \<or> 0 < document_frequency (doc # docs) t" for t
        using df0 [of t] E'(8) [of t] E1(7) [of t]
        by (auto simp: doc document_frequency_Cons)
    qed
  qed
qed

lemma engine_inv_init: "engine_inv CampusSearchEngine"
proof -
  have "ht_inv (HashTable 1024 :: nat hashtable)" by (rule inv_HashTable)
  moreover have "get (HashTable 1024 :: nat hashtable) t = None" for t by (rule inv_HashTable)
  ultimately show ?thesis by (simp add: engine_inv_def CampusSearchEngine_def)
qed

lemma ingest_spec:
  "\<exists>E. ingest CampusSearchEngine docs = Some E \<and> engine_inv E \<and>
     doc_counter E = int (length (accepted docs)) \<and>
     documents E = spec_documents_from 1 docs \<and>
     (\<forall>t. postings_of E t = spec_postings docs t) \<and>
     (\<forall>t. freq_at (trie E) t = document_frequency docs t) \<and>
     (\<forall>t. end_at (trie E) t \<longleftrightarrow> 0 < document_frequency docs t) \<and>
     (\<forall>t. get (inverted_index E) t \<noteq> None \<longleftrightarrow> 0 < document_frequency docs t)"
proof -
  have i: "postings_of CampusSearchEngine t = []" "freq_at (trie CampusSearchEngine) t = 0"
    "\<not> end_at (trie CampusSearchEngine) t" "get (inverted_index CampusSearchEngine) t = None"
    "doc_counter CampusSearchEngine = 0" "documents CampusSearchEngine = []" for t
  proof -
    have "get (HashTable 1024 :: nat hashtable) t = None" by (rule inv_HashTable)
    then show "postings_of CampusSearchEngine t = []" "freq_at (trie CampusSearchEngine) t = 0"
      "\<not> end_at (trie CampusSearchEngine) t" "get (inverted_index CampusSearchEngine) t = None"
      "doc_counter CampusSearchEngine = 0" "documents CampusSearchEngine = []"
      by (simp_all add: postings_of_def CampusSearchEngine_def)
  qed
  from ingest_inv [OF engine_inv_init, of docs] show ?thesis
    by (simp add: i spec_postings_def)
qed

lemma spec_postings_from_props:
  "sorted_wrt (<) (map doc_id (spec_postings_from n L t)) \<and>
   (\<forall>p\<in>set (spec_postings_from n L t). n \<le> doc_id p \<and> 1 \<le> term_freq p)"
proof (induction L arbitrary: n)
  case Nil
  then show ?case by simp
next
  case (Cons tokens L)
  have c: "t \<in> set tokens \<Longrightarrow> 1 \<le> int (count_list tokens t)"
    using count_list_0_iff [of tokens t] by linarith
  from Cons [of "n + 1"] have s: "sorted_wrt (<) (map doc_id (spec_postings_from (n + 1) L t))"
    and b: "\<forall>p\<in>set (spec_postings_from (n + 1) L t). n + 1 \<le> doc_id p \<and> 1 \<le> term_freq p"
    by blast+
  from b have b': "\<forall>p\<in>set (spec_postings_from (n + 1) L t). n < doc_id p \<and> n \<le> doc_id p \<and> 1 \<le> term_freq p"
    by auto
  show ?case
  proof (cases "t \<in> set tokens")
    case True
    with s b' c show ?thesis by simp
  next
    case False
    with s b' show ?thesis by simp
  qed
qed


section \<open>Ingestion: claims\<close>

text \<open>
  C5.  In every engine state, \<open>add_document\<close> on a content that tokenizes to the
  empty sequence returns the sentinel \<open>-1\<close> together with the very state it was
  given: counter, document table, inverted index, posting lists and trie are all
  unchanged.  Content that consists of three spaces is such a content.
\<close>

theorem ingest_rejection:
  "(tokenize content = [] \<longrightarrow> add_document E title' content filename' = Some (E, - 1)) \<and>
   add_document E ''t'' ''   '' ''f.txt'' = Some (E, - 1)"
proof (intro conjI impI)
  show "add_document E title' content filename' = Some (E, - 1)" if "tokenize content = []"
    using that by (rule add_document_rejected)
  have "tokenize ''   '' = []"
    by (simp add: tokenize_def lower_def lower_char_def ord_def alnum_def)
  then show "add_document E ''t'' ''   '' ''f.txt'' = Some (E, - 1)"
    by (rule add_document_rejected)
qed

theorem ingest_rejection_witness:
  "tokenize ''the and of'' = [] \<and>
   add_document CampusSearchEngine ''t'' ''the and of'' ''f.txt'' = Some (CampusSearchEngine, - 1)"
proof -
  have t: "tokenize ''the and of'' = []"
    by (simp add: tokenize_def lower_def lower_char_def ord_def alnum_def STOPWORDS_def)
  with ingest_rejection [of "''the and of''" CampusSearchEngine "''t''" "''f.txt''"]
  show ?thesis by blast
qed


text \<open>
  C9.  After ingesting any sequence of documents into the empty engine, the
  frequency stored at the node that a term leads to equals the number of accepted
  documents that contain the term (0 when no such node exists), and a term that
  occurs in some accepted document leads to a node that is marked as an end and
  carries that number.  One \<open>insert\<close> adds exactly 1 at the inserted term and changes
  no other term's frequency; one accepted \<open>add_document\<close> inserts each distinct token
  of the document once, in the order of first occurrence.  Three documents that
  contain \<^verbatim>\<open>cat\<close> three times, once and twice give the frequency 3.
\<close>

theorem trie_document_frequency:
  "(\<exists>E. ingest CampusSearchEngine docs = Some E \<and>
        (\<forall>t. freq_at (trie E) t = document_frequency docs t) \<and>
        (\<forall>t. 0 < document_frequency docs t \<longrightarrow>
           (\<exists>node. walk (trie E) t = Some node \<and> is_end node \<and>
                   frequency node = document_frequency docs t))) \<and>
   (\<forall>w'. freq_at (insert_trie node w) w' = freq_at node w' + (if w' = w then 1 else 0)) \<and>
   (engine_inv E0 \<and> tokenize content \<noteq> [] \<longrightarrow>
      (\<exists>E1. add_document E0 title' content filename' = Some (E1, doc_counter E0 + 1) \<and>
            trie E1 = foldl insert_trie (trie E0) (first_seen (tokenize content)) \<and>
            distinct (first_seen (tokenize content)) \<and>
            set (first_seen (tokenize content)) = set (tokenize content))) \<and>
   map_option (\<lambda>E. freq_at (trie E) ''cat'')
     (ingest CampusSearchEngine
        [(''one'', ''cat cat cat'', ''1.txt''), (''two'', ''the cat'', ''2.txt''),
         (''three'', ''cat dog cat'', ''3.txt'')]) = Some 3"
proof (intro conjI allI impI)
  from ingest_spec [of docs] obtain E where E:
    "ingest CampusSearchEngine docs = Some E"
    "\<And>t. freq_at (trie E) t = document_frequency docs t"
    "\<And>t. end_at (trie E) t \<longleftrightarrow> 0 < document_frequency docs t"
    by blast
  have "\<exists>node. walk (trie E) t = Some node \<and> is_end node \<and>
          frequency node = document_frequency docs t" if "0 < document_frequency docs t" for t
  proof -
    from that E(3) [of t] have "end_at (trie E) t" by simp
    then obtain node where "walk (trie E) t = Some node" "is_end node"
      by (auto simp: end_at_def split: option.splits)
    moreover from this E(2) [of t] have "frequency node = document_frequency docs t"
      by (simp add: freq_at_def)
    ultimately show ?thesis by blast
  qed
  with E(1,2) show "\<exists>E. ingest CampusSearchEngine docs = Some E \<and>
        (\<forall>t. freq_at (trie E) t = document_frequency docs t) \<and>
        (\<forall>t. 0 < document_frequency docs t \<longrightarrow>
           (\<exists>node. walk (trie E) t = Some node \<and> is_end node \<and>
                   frequency node = document_frequency docs t))"
    by blast
next
  fix w'
  show "freq_at (insert_trie node w) w' = freq_at node w' + (if w' = w then 1 else 0)"
    by (rule freq_at_insert)
next
  assume "engine_inv E0 \<and> tokenize content \<noteq> []"
  then have "engine_inv E0" "tokenize content \<noteq> []" by simp_all
  from add_document_accepted [OF this, of title' filename'] obtain E1 where
    "add_document E0 title' content filename' = Some (E1, doc_counter E0 + 1)"
    "trie E1 = foldl insert_trie (trie E0) (first_seen (tokenize content))"
    by blast
  then show "\<exists>E1. add_document E0 title' content filename' = Some (E1, doc_counter E0 + 1) \<and>
            trie E1 = foldl insert_trie (trie E0) (first_seen (tokenize content)) \<and>
            distinct (first_seen (tokenize content)) \<and>
            set (first_seen (tokenize content)) = set (tokenize content)"
    by auto
next
  let ?docs = "[(''one'', ''cat cat cat'', ''1.txt''), (''two'', ''the cat'', ''2.txt''),
         (''three'', ''cat dog cat'', ''3.txt'')]"
  from ingest_spec [of ?docs] obtain E where E:
    "ingest CampusSearchEngine ?docs = Some E"
    "freq_at (trie E) ''cat'' = document_frequency ?docs ''cat''"
    by blast
  have "document_frequency ?docs ''cat'' = 3"
    by (simp add: document_frequency_def accepted_def tokenize_def lower_def lower_char_def
          ord_def alnum_def STOPWORDS_def)
  with E show "map_option (\<lambda>E. freq_at (trie E) ''cat'') (ingest CampusSearchEngine ?docs) = Some 3"
    by simp
qed

theorem trie_document_frequency_witness:
  "0 < document_frequency [(''one'', ''cat cat'', ''1.txt''), (''two'', ''a cat'', ''2.txt'')] ''cat'' \<and>
   (\<exists>E node. ingest CampusSearchEngine [(''one'', ''cat cat'', ''1.txt''), (''two'', ''a cat'', ''2.txt'')] = Some E \<and>
      walk (trie E) ''cat'' = Some node \<and> is_end node \<and> frequency node = 2) \<and>
   engine_inv CampusSearchEngine \<and> tokenize ''cat cat'' \<noteq> [] \<and>
   (\<exists>E1. add_document CampusSearchEngine ''one'' ''cat cat'' ''1.txt'' = Some (E1, 1) \<and>
         trie E1 = insert_trie (TrieNode [] False 0) ''cat'')"
proof -
  let ?docs = "[(''one'', ''cat cat'', ''1.txt''), (''two'', ''a cat'', ''2.txt'')]"
  have df: "document_frequency ?docs ''cat'' = 2"
    by (simp add: document_frequency_def accepted_def tokenize_def lower_def lower_char_def
          ord_def alnum_def STOPWORDS_def)
  have tk: "tokenize ''cat cat'' = [''cat'', ''cat'']"
    by (simp add: tokenize_def lower_def lower_char_def ord_def alnum_def STOPWORDS_def)
  note inst = trie_document_frequency [of ?docs "TrieNode [] False 0" "''x''" CampusSearchEngine
      "''cat cat''" "''one''" "''1.txt''"]
  from inst obtain E where E: "ingest CampusSearchEngine ?docs = Some E"
    "\<forall>t. 0 < document_frequency ?docs t \<longrightarrow>
           (\<exists>node. walk (trie E) t = Some node \<and> is_end node \<and>
                   frequency node = document_frequency ?docs t)"
    by blast
  from E(2) df obtain node where "walk (trie E) ''cat'' = Some node" "is_end node"
    "frequency node = 2"
    by (metis zero_less_numeral)
  with E(1) have A: "\<exists>E node. ingest CampusSearchEngine ?docs = Some E \<and>
      walk (trie E) ''cat'' = Some node \<and> is_end node \<and> frequency node = 2" by blast
  have i: "engine_inv CampusSearchEngine" by (rule engine_inv_init)
  have ne: "tokenize ''cat cat'' \<noteq> []" by (simp add: tk)
  from inst i ne obtain E1 where
    "add_document CampusSearchEngine ''one'' ''cat cat'' ''1.txt'' = Some (E1, doc_counter CampusSearchEngine + 1)"
    "trie E1 = foldl insert_trie (trie CampusSearchEngine) (first_seen (tokenize ''cat cat''))"
    by blast
  then have B: "\<exists>E1. add_document CampusSearchEngine ''one'' ''cat cat'' ''1.txt'' = Some (E1, 1) \<and>
         trie E1 = insert_trie (TrieNode [] False 0) ''cat''"
    by (simp add: tk first_seen_def CampusSearchEngine_def)
  from df A i ne B show ?thesis by simp
qed

text \<open>
  C10.  After ingesting any sequence of documents into the empty engine, the terms
  in the inverted index are the terms of the accepted documents, and the posting list
  of every term in the index is what the specification prescribes: the document ids
  are strictly increasing (so no document has two postings) and every term frequency
  is at least 1.
\<close>

theorem posting_list_invariant:
  "\<exists>E. ingest CampusSearchEngine docs = Some E \<and>
     (\<forall>t. (\<exists>r. get (inverted_index E) t = Some r) \<longleftrightarrow> 0 < document_frequency docs t) \<and>
     (\<forall>t r. get (inverted_index E) t = Some r \<longrightarrow>
        lists E r = spec_postings docs t \<and>
        sorted_wrt (<) (map doc_id (lists E r)) \<and>
        distinct (map doc_id (lists E r)) \<and>
        (\<forall>p\<in>set (lists E r). 1 \<le> term_freq p))"
proof -
  from ingest_spec [of docs] obtain E where E:
    "ingest CampusSearchEngine docs = Some E"
    "\<And>t. postings_of E t = spec_postings docs t"
    "\<And>t. get (inverted_index E) t \<noteq> None \<longleftrightarrow> 0 < document_frequency docs t"
    by blast
  have "lists E r = spec_postings docs t \<and>
        sorted_wrt (<) (map doc_id (lists E r)) \<and>
        distinct (map doc_id (lists E r)) \<and>
        (\<forall>p\<in>set (lists E r). 1 \<le> term_freq p)" if "get (inverted_index E) t = Some r" for t r
  proof -
    from that E(2) [of t] have l: "lists E r = spec_postings docs t"
      by (simp add: postings_of_def)
    note p = spec_postings_from_props [of 1 "accepted docs" t, folded spec_postings_def]
    from p have "sorted_wrt (<) (map doc_id (spec_postings docs t))" by blast
    then have "distinct (map doc_id (spec_postings docs t))"
      by (simp add: strict_sorted_iff)
    with p l show ?thesis by simp
  qed
  moreover have "(\<exists>r. get (inverted_index E) t = Some r) \<longleftrightarrow> 0 < document_frequency docs t" for t
    using E(3) [of t] by auto
  ultimately show ?thesis using E(1) by blast
qed


theorem posting_list_invariant_witness:
  "0 < document_frequency [(''A'', ''cat dog cat'', ''a.txt''), (''B'', ''dog dog'', ''b.txt'')] ''dog'' \<and>
   (\<exists>E r. ingest CampusSearchEngine [(''A'', ''cat dog cat'', ''a.txt''), (''B'', ''dog dog'', ''b.txt'')] = Some E \<and>
      get (inverted_index E) ''dog'' = Some r \<and>
      lists E r = [\<lparr>doc_id = 1, term_freq = 1\<rparr>, \<lparr>doc_id = 2, term_freq = 2\<rparr>] \<and>
      sorted_wrt (<) (map doc_id (lists E r)))"
proof -
  let ?docs = "[(''A'', ''cat dog cat'', ''a.txt''), (''B'', ''dog dog'', ''b.txt'')]"
  have df: "0 < document_frequency ?docs ''dog''"
    by (simp add: document_frequency_def accepted_def tokenize_def lower_def lower_char_def
          ord_def alnum_def STOPWORDS_def)
  have sp: "spec_postings ?docs ''dog'' = [\<lparr>doc_id = 1, term_freq = 1\<rparr>, \<lparr>doc_id = 2, term_freq = 2\<rparr>]"
    by (simp add: spec_postings_def accepted_def tokenize_def lower_def lower_char_def
          ord_def alnum_def STOPWORDS_def)
  from posting_list_invariant [of ?docs] obtain E where E:
    "ingest CampusSearchEngine ?docs = Some E"
    "\<forall>t. (\<exists>r. get (inverted_index E) t = Some r) \<longleftrightarrow> 0 < document_frequency ?docs t"
    "\<forall>t r. get (inverted_index E) t = Some r \<longrightarrow>
        lists E r = spec_postings ?docs t \<and>
        sorted_wrt (<) (map doc_id (lists E r)) \<and>
        distinct (map doc_id (lists E r)) \<and>
        (\<forall>p\<in>set (lists E r). 1 \<le> term_freq p)"
    by blast
  from E(2) df obtain r where r: "get (inverted_index E) ''dog'' = Some r" by blast
  with E(3) have "lists E r = spec_postings ?docs ''dog''" "sorted_wrt (<) (map doc_id (lists E r))"
    by blast+
  with sp r E(1) df show ?thesis by auto
qed

section \<open>Sorting, scoring and traversal\<close>

lemma mset_sort_reverse [simp]: "mset (sort_reverse key xs) = mset xs"
  by (simp add: sort_reverse_def)

lemma sorted_sort_reverse: "sorted_wrt (\<lambda>a b. key b \<le> key a) (sort_reverse key xs)"
proof -
  have "sorted (map key (sort_key key (rev xs)))" by (rule sorted_sort_key)
  then have "sorted_wrt (\<lambda>a b. key a \<le> key b) (sort_key key (rev xs))"
    by (simp add: sorted_map)
  then show ?thesis by (simp add: sort_reverse_def sorted_wrt_rev)
qed

lemma stable_sort_reverse:
  "filter (\<lambda>x. key x = k) (sort_reverse key xs) = filter (\<lambda>x. key x = k) xs"
proof -
  have "filter (\<lambda>x. key x = k) (sort_key key (rev xs)) = filter (\<lambda>x. key x = k) (rev xs)"
    by (rule sort_key_stable)
  then show ?thesis by (simp add: sort_reverse_def rev_filter [symmetric])
qed

lemma add_postings_snoc:
  "add_postings (ps @ [p]) acc =
     dict_set (add_postings ps acc) (doc_id p)
       (dict_get_default (add_postings ps acc) (doc_id p) 0 + term_freq p)"
  by (induction ps arbitrary: acc) simp_all

lemma add_postings_append: "add_postings (ps @ qs) acc = add_postings qs (add_postings ps acc)"
  by (induction ps arbitrary: acc) simp_all

lemma dict_set_map:
  "distinct ks \<Longrightarrow> k \<in> set ks \<Longrightarrow>
   dict_set (map (\<lambda>d. (d, f d)) ks) k v = map (\<lambda>d. (d, if d = k then v else f d)) ks"
  by (induction ks) auto

lemma dict_get_default_map:
  "dict_get_default (map (\<lambda>d. (d, f d)) ks) k z = (if k \<in> set ks then f k else z)"
  by (induction ks) (auto simp: dict_get_default_def)

lemma score_of_snoc: "score_of (ps @ [p]) d = score_of ps d + (if doc_id p = d then term_freq p else 0)"
  by (simp add: score_of_def)

lemma score_of_append: "score_of (ps @ qs) d = score_of ps d + score_of qs d"
  by (simp add: score_of_def)

lemma score_of_absent: "d \<notin> doc_id ` set ps \<Longrightarrow> score_of ps d = 0"
  by (induction ps) (auto simp: score_of_def)

lemma add_postings_scored:
  "add_postings ps [] = map (\<lambda>d. (d, score_of ps d)) (first_seen (map doc_id ps))"
proof (induction ps rule: rev_induct)
  case Nil
  then show ?case by simp
next
  case (snoc p ps)
  let ?k = "doc_id p"
  let ?ks = "first_seen (map doc_id ps)"
  show ?case
  proof (cases "?k \<in> doc_id ` set ps")
    case True
    then have "?k \<in> set ?ks" by simp
    then have "dict_set (map (\<lambda>d. (d, score_of ps d)) ?ks) ?k (score_of ps ?k + term_freq p) =
        map (\<lambda>d. (d, if d = ?k then score_of ps ?k + term_freq p else score_of ps d)) ?ks"
      by (intro dict_set_map) simp_all
    also have "\<dots> = map (\<lambda>d. (d, score_of (ps @ [p]) d)) ?ks"
      by (intro map_cong) (auto simp: score_of_snoc)
    finally show ?thesis
      using True by (simp add: add_postings_snoc snoc dict_get_default_map first_seen_snoc)
  next
    case False
    then have n: "?k \<notin> set ?ks" by simp
    let ?X = "map (\<lambda>d. (d, score_of ps d)) ?ks"
    have "add_postings (ps @ [p]) [] = dict_set ?X ?k (dict_get_default ?X ?k 0 + term_freq p)"
      by (simp only: add_postings_snoc snoc)
    also have "\<dots> = dict_set ?X ?k (term_freq p)"
      using n by (simp add: dict_get_default_map)
    also have "\<dots> = ?X @ [(?k, term_freq p)]"
      using n by (intro dict_set_fresh) (simp add: image_image)
    also have "?X = map (\<lambda>d. (d, score_of (ps @ [p]) d)) ?ks"
      using n by (intro map_cong) (auto simp: score_of_snoc)
    also have "term_freq p = score_of (ps @ [p]) ?k"
      using False by (simp add: score_of_snoc score_of_absent)
    finally show ?thesis
      using False by (simp add: first_seen_snoc)
  qed
qed

lemma score_terms_conv:
  "score_terms E terms acc = add_postings (concat (map (postings_of E) terms)) acc"
  by (induction terms arbitrary: acc)
     (simp_all add: postings_of_def items_def add_postings_append split: option.splits)

lemma search_conv:
  "search E query prefix =
     sort_reverse snd
       (let ps = concat (map (postings_of E) (candidates E (tokenize query) prefix))
        in map (\<lambda>d. (d, score_of ps d)) (first_seen (map doc_id ps)))"
proof (cases "tokenize query = []")
  case True
  then show ?thesis by (simp add: search_def candidates_def sort_reverse_def)
next
  case False
  then show ?thesis
    by (simp add: search_def Let_def score_terms_conv add_postings_scored)
qed

lemma search_scored:
  "search E query prefix =
     sort_reverse snd (spec_scored (concat (map (postings_of E) (candidates E (tokenize query) prefix))))"
  by (simp add: search_conv spec_scored_def Let_def)

lemma keyword_search_spec:
  "\<exists>E. ingest CampusSearchEngine docs = Some E \<and>
     keyword_search E query =
       sort_reverse snd (spec_scored (concat (map (spec_postings docs) (tokenize query))))"
proof -
  from ingest_spec [of docs] obtain E where E:
    "ingest CampusSearchEngine docs = Some E" "\<And>t. postings_of E t = spec_postings docs t"
    by blast
  from E(2) have "postings_of E = spec_postings docs" by (rule ext)
  then have "keyword_search E query =
       sort_reverse snd (spec_scored (concat (map (spec_postings docs) (tokenize query))))"
    by (simp add: keyword_search_def search_scored candidates_def)
  with E(1) show ?thesis by blast
qed

lemma keyword_search_after_spec:
  "keyword_search_after docs query =
     Some (sort_reverse snd (spec_scored (concat (map (spec_postings docs) (tokenize query)))))"
  using keyword_search_spec [of docs query] by (auto simp: keyword_search_after_def)


lemma subtree_terms_sel:
  "subtree_terms node pre =
     (if is_end node then [(pre, frequency node)] else []) @
     concat (map (\<lambda>(ch, child). subtree_terms child (pre @ [ch])) (children node))"
  by (cases node) simp

lemma mset_collect:
  "mset (collect queue results) =
     mset results + mset (concat (map (\<lambda>(node, pre). subtree_terms node pre) queue))"
proof (induction queue results rule: collect.induct)
  case (1 results)
  then show ?case by simp
next
  case (2 current current_prefix queue results)
  have "(\<lambda>(node, pre). subtree_terms node pre) \<circ> (\<lambda>(ch, child). (child, current_prefix @ [ch]))
        = (\<lambda>(ch, child). subtree_terms child (current_prefix @ [ch]))"
    by (auto simp: fun_eq_iff)
  then show ?case
    using 2 by (simp add: subtree_terms_sel [of current current_prefix])
qed

lemma slice_to_nonneg: "0 \<le> limit \<Longrightarrow> slice_to xs limit = take (nat limit) xs"
  by (simp add: slice_to_def)


lemma startswith_iff: "startswith s q \<longleftrightarrow> (\<exists>r. s = q @ r)"
  by (induction s q rule: startswith.induct) auto

lemma contains_iff: "contains s q \<longleftrightarrow> (\<exists>a b. s = a @ q @ b)"
proof (induction s)
  case Nil
  then show ?case by simp
next
  case (Cons c cs)
  have "(\<exists>a b. c # cs = a @ q @ b) \<longleftrightarrow> (\<exists>b. c # cs = q @ b) \<or> (\<exists>a b. cs = a @ q @ b)"
  proof
    assume "\<exists>a b. c # cs = a @ q @ b"
    then obtain a b where ab: "c # cs = a @ q @ b" by blast
    show "(\<exists>b. c # cs = q @ b) \<or> (\<exists>a b. cs = a @ q @ b)"
    proof (cases a)
      case Nil
      with ab show ?thesis by auto
    next
      case (Cons x a')
      with ab have "cs = a' @ q @ b" by simp
      then show ?thesis by blast
    qed
  next
    assume "(\<exists>b. c # cs = q @ b) \<or> (\<exists>a b. cs = a @ q @ b)"
    then show "\<exists>a b. c # cs = a @ q @ b"
    proof
      assume "\<exists>b. c # cs = q @ b"
      then obtain b where "c # cs = [] @ q @ b" by auto
      then show ?thesis by blast
    next
      assume "\<exists>a b. cs = a @ q @ b"
      then obtain a b where "c # cs = (c # a) @ q @ b" by auto
      then show ?thesis by blast
    qed
  qed
  with Cons show ?case by (simp add: startswith_iff)
qed

lemma scan_documents_conv:
  "query_value \<noteq> [] \<Longrightarrow>
   scan_documents docs query_value prefix =
     map (\<lambda>(d, meta). (d, 1))
       (filter (\<lambda>(d, meta). if prefix then startswith (lower (filename meta)) query_value
                              else contains (lower (filename meta)) query_value) docs)"
proof (induction docs)
  case Nil
  then show ?case by simp
next
  case (Cons dm docs)
  obtain d meta where dm: "dm = (d, meta)" by (cases dm)
  from Cons.prems have e: "\<not> startswith [] query_value" "\<not> contains [] query_value"
    by (cases query_value; simp)+
  show ?case using Cons e by (auto simp: dm Let_def)
qed


lemma length_autocomplete: "0 \<le> limit \<Longrightarrow> int (length (autocomplete root prefix limit)) \<le> limit"
  by (auto simp: autocomplete_def slice_to_nonneg split: option.splits)

lemma ingest_single:
  assumes "tokenize content \<noteq> []"
  shows "\<exists>E. ingest CampusSearchEngine [(title', content, filename')] = Some E \<and>
     engine_inv E \<and>
     trie E = foldl insert_trie (TrieNode [] False 0) (first_seen (tokenize content)) \<and>
     (\<forall>t. postings_of E t =
        (if t \<in> set (tokenize content)
         then [\<lparr>doc_id = 1, term_freq = int (count_list (tokenize content) t)\<rparr>] else []))"
proof -
  have p: "postings_of CampusSearchEngine t = []" for t
  proof -
    have "get (HashTable 1024 :: nat hashtable) t = None" by (rule inv_HashTable)
    then show ?thesis by (simp add: postings_of_def CampusSearchEngine_def)
  qed
  from add_document_accepted [OF engine_inv_init assms, of title' filename'] obtain E where E:
    "add_document CampusSearchEngine title' content filename' = Some (E, doc_counter CampusSearchEngine + 1)"
    "engine_inv E"
    "trie E = foldl insert_trie (trie CampusSearchEngine) (first_seen (tokenize content))"
    "\<And>t. postings_of E t = postings_of CampusSearchEngine t @
        (if t \<in> set (tokenize content)
         then [\<lparr>doc_id = doc_counter CampusSearchEngine + 1,
                term_freq = int (count_list (tokenize content) t)\<rparr>]
         else [])"
    by blast
  have "ingest CampusSearchEngine [(title', content, filename')] = Some E"
    using E(1) by simp
  moreover have "trie E = foldl insert_trie (TrieNode [] False 0) (first_seen (tokenize content))"
    using E(3) by (simp add: CampusSearchEngine_def)
  moreover have "postings_of E t =
        (if t \<in> set (tokenize content)
         then [\<lparr>doc_id = 1, term_freq = int (count_list (tokenize content) t)\<rparr>] else [])" for t
  proof -
    have "doc_counter CampusSearchEngine + 1 = 1" by (simp add: CampusSearchEngine_def)
    with E(4) [of t] p [of t] show ?thesis by simp
  qed
  ultimately show ?thesis using E(2) by blast
qed


lemma trie_ok_sel: "trie_ok node \<longleftrightarrow> distinct (map fst (children node)) \<and> (\<forall>p\<in>set (children node). trie_ok (snd p))"
  by (cases node) simp

lemma set_dict_set: "set (dict_set d k v) \<subseteq> insert (k, v) (set d)"
  by (induction d) (auto split: if_splits)

lemma distinct_dict_set: "distinct (map fst d) \<Longrightarrow> distinct (map fst (dict_set d k v))"
  by (simp add: keys_dict_set)

lemma dict_get_mem: "dict_get d k = Some v \<Longrightarrow> (k, v) \<in> set d"
  by (simp add: dict_get_def map_of_SomeD)

lemma trie_ok_insert: "trie_ok node \<Longrightarrow> trie_ok (insert_trie node w)"
proof (induction w arbitrary: node)
  case Nil
  then show ?case by (simp add: trie_ok_sel [of node])
next
  case (Cons ch word)
  define child where "child = (case dict_get (children node) ch of None \<Rightarrow> TrieNode [] False 0 | Some n \<Rightarrow> n)"
  have "trie_ok child"
  proof (cases "dict_get (children node) ch")
    case None
    then show ?thesis by (simp add: child_def)
  next
    case (Some n)
    then have "(ch, n) \<in> set (children node)" by (rule dict_get_mem)
    with Cons.prems show ?thesis by (auto simp: child_def Some trie_ok_sel [of node])
  qed
  then have c: "trie_ok (insert_trie child word)" by (rule Cons.IH)
  have "\<forall>p\<in>set (dict_set (children node) ch (insert_trie child word)). trie_ok (snd p)"
    using set_dict_set [of "children node" ch "insert_trie child word"] c Cons.prems
    by (auto simp: trie_ok_sel [of node])
  moreover have "distinct (map fst (dict_set (children node) ch (insert_trie child word)))"
    using Cons.prems by (intro distinct_dict_set) (simp add: trie_ok_sel [of node])
  ultimately show ?case by (simp add: Let_def child_def [symmetric])
qed

lemma trie_ok_walk: "trie_ok node \<Longrightarrow> walk node w = Some n \<Longrightarrow> trie_ok n"
proof (induction w arbitrary: node)
  case Nil
  then show ?case by simp
next
  case (Cons ch w)
  from Cons.prems(2) obtain child where c: "dict_get (children node) ch = Some child"
    "walk child w = Some n"
    by (auto split: option.splits)
  from c(1) have "(ch, child) \<in> set (children node)" by (rule dict_get_mem)
  with Cons.prems(1) have "trie_ok child" by (auto simp: trie_ok_sel [of node])
  then show ?case using c(2) by (rule Cons.IH)
qed

lemma subtree_terms_walk:
  "trie_ok node \<Longrightarrow>
   (w, f) \<in> set (subtree_terms node pre) \<longleftrightarrow>
   (\<exists>sfx n. w = pre @ sfx \<and> walk node sfx = Some n \<and> is_end n \<and> frequency n = f)"
proof (induction node pre arbitrary: w f rule: subtree_terms.induct)
  case (1 cs e f0 pre)
  from "1.prems" have d: "distinct (map fst cs)" and ok: "\<forall>p\<in>set cs. trie_ok (snd p)" by simp_all
  have IH: "(w, f) \<in> set (subtree_terms child (pre @ [ch])) \<longleftrightarrow>
      (\<exists>sfx n. w = (pre @ [ch]) @ sfx \<and> walk child sfx = Some n \<and> is_end n \<and> frequency n = f)"
    if "(ch, child) \<in> set cs" for ch child
    using "1.IH" [OF that refl] ok that by fastforce
  have m: "dict_get cs ch = Some child \<longleftrightarrow> (ch, child) \<in> set cs" for ch child
    using d by (simp add: dict_get_def)
  show ?case (is "?L \<longleftrightarrow> ?R")
  proof
    assume ?L
    then consider "e" "w = pre" "f = f0"
      | ch child where "(ch, child) \<in> set cs" "(w, f) \<in> set (subtree_terms child (pre @ [ch]))"
      by (auto split: if_splits)
    then show ?R
    proof cases
      case 1
      then have "w = pre @ [] \<and> walk (TrieNode cs e f0) [] = Some (TrieNode cs e f0) \<and>
          is_end (TrieNode cs e f0) \<and> frequency (TrieNode cs e f0) = f" by simp
      then show ?thesis by blast
    next
      case 2
      with IH obtain sfx n where "w = (pre @ [ch]) @ sfx" "walk child sfx = Some n" "is_end n"
        "frequency n = f" by blast
      moreover from 2(1) m have "dict_get cs ch = Some child" by simp
      ultimately have "w = pre @ (ch # sfx) \<and> walk (TrieNode cs e f0) (ch # sfx) = Some n \<and>
          is_end n \<and> frequency n = f" by simp
      then show ?thesis by blast
    qed
  next
    assume ?R
    then obtain sfx n where r: "w = pre @ sfx" "walk (TrieNode cs e f0) sfx = Some n" "is_end n"
      "frequency n = f" by blast
    show ?L
    proof (cases sfx)
      case Nil
      with r show ?thesis by auto
    next
      case (Cons ch rest)
      with r(2) obtain child where c: "dict_get cs ch = Some child" "walk child rest = Some n"
        by (auto split: option.splits)
      with m have mem: "(ch, child) \<in> set cs" by simp
      from r Cons c(2) have "(w, f) \<in> set (subtree_terms child (pre @ [ch]))"
        using IH [OF mem] by auto
      with mem show ?thesis by auto
    qed
  qed
qed

lemma walk_append:
  "walk node (p @ s) = (case walk node p of None \<Rightarrow> None | Some n \<Rightarrow> walk n s)"
  by (induction p arbitrary: node) (auto split: option.splits)

text \<open>
  The ranking that \<open>autocomplete\<close> computes before it returns: for a limit that is
  not negative, the result is the first \<open>limit\<close> elements of a list that holds the
  term of every node below the prefix that ends a term, with that node's frequency,
  in descending order of the frequency, each element reduced to its term.
\<close>

lemma autocomplete_ranking:
  "0 \<le> limit \<longrightarrow>
     (walk root prefix = None \<longrightarrow> autocomplete root prefix limit = []) \<and>
     (\<forall>node. walk root prefix = Some node \<longrightarrow>
        (\<exists>ranked. autocomplete root prefix limit = map fst (take (nat limit) ranked) \<and>
           mset ranked = mset (subtree_terms node prefix) \<and>
           sorted_wrt (\<lambda>a b. snd b \<le> snd a) ranked \<and>
           (\<forall>f. filter (\<lambda>x. snd x = f) ranked = filter (\<lambda>x. snd x = f) (collect [(node, prefix)] [])) \<and>
           (trie_ok root \<longrightarrow>
              (\<forall>w f. (w, f) \<in> set ranked \<longleftrightarrow>
                 (\<exists>sfx n. w = prefix @ sfx \<and> walk root w = Some n \<and> is_end n \<and> frequency n = f))))) \<and>
     int (length (autocomplete root prefix limit)) \<le> limit \<and>
     trie_ok (TrieNode [] False 0) \<and> (trie_ok root \<longrightarrow> trie_ok (insert_trie root word))"
proof (intro impI conjI allI)
  assume l: "0 \<le> limit"
  show "autocomplete root prefix limit = []" if "walk root prefix = None"
    using that by (simp add: autocomplete_def)
  show "\<exists>ranked. autocomplete root prefix limit = map fst (take (nat limit) ranked) \<and>
           mset ranked = mset (subtree_terms node prefix) \<and>
           sorted_wrt (\<lambda>a b. snd b \<le> snd a) ranked \<and>
           (\<forall>f. filter (\<lambda>x. snd x = f) ranked = filter (\<lambda>x. snd x = f) (collect [(node, prefix)] [])) \<and>
           (trie_ok root \<longrightarrow>
              (\<forall>w f. (w, f) \<in> set ranked \<longleftrightarrow>
                 (\<exists>sfx n. w = prefix @ sfx \<and> walk root w = Some n \<and> is_end n \<and> frequency n = f)))"
    if w: "walk root prefix = Some node" for node
  proof (intro exI [of _ "sort_reverse snd (collect [(node, prefix)] [])"] conjI allI impI)
    fix t f assume ok: "trie_ok root"
    have m: "mset (sort_reverse snd (collect [(node, prefix)] [])) = mset (subtree_terms node prefix)"
      by (simp only: mset_sort_reverse mset_collect) simp
    have "set (sort_reverse snd (collect [(node, prefix)] [])) = set (subtree_terms node prefix)"
      using m by (rule mset_eq_setD)
    moreover from ok w have "trie_ok node" by (rule trie_ok_walk)
    moreover have "walk root (prefix @ sfx) = walk node sfx" for sfx
      using w by (simp add: walk_append)
    ultimately show "(t, f) \<in> set (sort_reverse snd (collect [(node, prefix)] [])) \<longleftrightarrow>
        (\<exists>sfx n. t = prefix @ sfx \<and> walk root t = Some n \<and> is_end n \<and> frequency n = f)"
      by (auto simp: subtree_terms_walk)
  next
    show "autocomplete root prefix limit =
        map fst (take (nat limit) (sort_reverse snd (collect [(node, prefix)] [])))"
      using w l by (simp add: autocomplete_def slice_to_nonneg)
    show "mset (sort_reverse snd (collect [(node, prefix)] [])) = mset (subtree_terms node prefix)"
      by (simp only: mset_sort_reverse mset_collect) simp
    show "sorted_wrt (\<lambda>a b. snd b \<le> snd a) (sort_reverse snd (collect [(node, prefix)] []))"
      by (rule sorted_sort_reverse)
    show "filter (\<lambda>x. snd x = f) (sort_reverse snd (collect [(node, prefix)] [])) =
        filter (\<lambda>x. snd x = f) (collect [(node, prefix)] [])" for f
      by (rule stable_sort_reverse)
  qed
  show "int (length (autocomplete root prefix limit)) \<le> limit"
    using l by (auto simp: autocomplete_def slice_to_nonneg split: option.splits)
  show "trie_ok (TrieNode [] False 0)" by simp
  show "trie_ok (insert_trie root word)" if "trie_ok root"
    using that by (rule trie_ok_insert)
qed

section \<open>Queries: claims\<close>

text \<open>
  C1.  After ingesting any sequence of documents into the empty engine,
  \<open>keyword_search\<close> of any query returns the documents that the postings of the
  query's tokens mention, each once and paired with the sum of the term frequencies
  of those postings for it (a token contributes once per occurrence in the query, a
  token without postings contributes nothing), in descending order of the score;
  documents with equal scores keep the order in which the postings first mention
  them.  With A = \<^verbatim>\<open>cat dog cat\<close> and B = \<^verbatim>\<open>dog dog\<close> the query \<^verbatim>\<open>dog\<close>
  gives [(B,2),(A,1)] and the query \<^verbatim>\<open>cat dog\<close> gives [(A,3),(B,2)].
\<close>

theorem keyword_search_ranking:
  "(\<exists>E. ingest CampusSearchEngine docs = Some E \<and>
      keyword_search E query =
        sort_reverse snd (spec_scored (concat (map (spec_postings docs) (tokenize query)))) \<and>
      mset (keyword_search E query) =
        mset (spec_scored (concat (map (spec_postings docs) (tokenize query)))) \<and>
      sorted_wrt (\<lambda>a b. snd b \<le> snd a) (keyword_search E query) \<and>
      (\<forall>s. filter (\<lambda>x. snd x = s) (keyword_search E query) =
           filter (\<lambda>x. snd x = s) (spec_scored (concat (map (spec_postings docs) (tokenize query)))))) \<and>
   keyword_search_after [(''A'', ''cat dog cat'', ''a.txt''), (''B'', ''dog dog'', ''b.txt'')] ''dog''
     = Some [(2, 2), (1, 1)] \<and>
   keyword_search_after [(''A'', ''cat dog cat'', ''a.txt''), (''B'', ''dog dog'', ''b.txt'')] ''cat dog''
     = Some [(1, 3), (2, 2)]"
proof (intro conjI)
  from keyword_search_spec [of docs query] obtain E where E:
    "ingest CampusSearchEngine docs = Some E"
    "keyword_search E query =
       sort_reverse snd (spec_scored (concat (map (spec_postings docs) (tokenize query))))"
    by blast
  show "\<exists>E. ingest CampusSearchEngine docs = Some E \<and>
      keyword_search E query =
        sort_reverse snd (spec_scored (concat (map (spec_postings docs) (tokenize query)))) \<and>
      mset (keyword_search E query) =
        mset (spec_scored (concat (map (spec_postings docs) (tokenize query)))) \<and>
      sorted_wrt (\<lambda>a b. snd b \<le> snd a) (keyword_search E query) \<and>
      (\<forall>s. filter (\<lambda>x. snd x = s) (keyword_search E query) =
           filter (\<lambda>x. snd x = s) (spec_scored (concat (map (spec_postings docs) (tokenize query)))))"
  proof (intro exI [of _ E] conjI allI)
    show "ingest CampusSearchEngine docs = Some E" by (rule E(1))
    show "keyword_search E query =
        sort_reverse snd (spec_scored (concat (map (spec_postings docs) (tokenize query))))"
      by (rule E(2))
    show "mset (keyword_search E query) =
        mset (spec_scored (concat (map (spec_postings docs) (tokenize query))))"
      unfolding E(2) by (rule mset_sort_reverse)
    show "sorted_wrt (\<lambda>a b. snd b \<le> snd a) (keyword_search E query)"
      unfolding E(2) by (rule sorted_sort_reverse)
    show "filter (\<lambda>x. snd x = s) (keyword_search E query) =
           filter (\<lambda>x. snd x = s) (spec_scored (concat (map (spec_postings docs) (tokenize query))))"
      for s
      unfolding E(2) by (rule stable_sort_reverse)
  qed
  let ?docs = "[(''A'', ''cat dog cat'', ''a.txt''), (''B'', ''dog dog'', ''b.txt'')]"
  have a: "accepted ?docs = [[''cat'', ''dog'', ''cat''], [''dog'', ''dog'']]"
    by (simp add: accepted_def tokenize_def lower_def lower_char_def ord_def alnum_def STOPWORDS_def)
  have t: "tokenize ''dog'' = [''dog'']" "tokenize ''cat dog'' = [''cat'', ''dog'']"
    by (simp_all add: tokenize_def lower_def lower_char_def ord_def alnum_def STOPWORDS_def)
  show "keyword_search_after ?docs ''dog'' = Some [(2, 2), (1, 1)]"
    unfolding keyword_search_after_spec t
    by (simp add: spec_postings_def a spec_scored_def score_of_def first_seen_def sort_reverse_def)
  show "keyword_search_after ?docs ''cat dog'' = Some [(1, 3), (2, 2)]"
    unfolding keyword_search_after_spec t
    by (simp add: spec_postings_def a spec_scored_def score_of_def first_seen_def sort_reverse_def)
qed

theorem keyword_search_ranking_witness:
  "keyword_search_after [(''X'', ''cat'', ''x.txt''), (''Y'', ''dog'', ''y.txt'')] ''dog cat'' = Some [(2, 1), (1, 1)]"
proof -
  let ?docs = "[(''X'', ''cat'', ''x.txt''), (''Y'', ''dog'', ''y.txt'')]"
  have a: "accepted ?docs = [[''cat''], [''dog'']]"
    by (simp add: accepted_def tokenize_def lower_def lower_char_def ord_def alnum_def STOPWORDS_def)
  have t: "tokenize ''dog cat'' = [''dog'', ''cat'']"
    by (simp_all add: tokenize_def lower_def lower_char_def ord_def alnum_def STOPWORDS_def)
  from keyword_search_ranking [of ?docs "''dog cat''"] obtain E where
    "ingest CampusSearchEngine ?docs = Some E"
    "keyword_search E ''dog cat'' =
        sort_reverse snd (spec_scored (concat (map (spec_postings ?docs) (tokenize ''dog cat''))))"
    by blast
  then show ?thesis
    unfolding t
    by (simp add: keyword_search_after_def spec_postings_def a spec_scored_def score_of_def
          first_seen_def sort_reverse_def)
qed

text \<open>
  C2.  The claim, the interface of the specification and the \<^verbatim>\<open>/autocomplete\<close> route
  of the application, which unpacks a term and a frequency from every element of the
  result, all take \<open>autocomplete\<close> to return pairs of a term and its document
  frequency.  The code ranks such pairs and then returns the terms alone.  In the trie
  that holds \<^verbatim>\<open>cat\<close> once, the prefix \<^verbatim>\<open>ca\<close> leads to a node below which the
  only term is \<^verbatim>\<open>cat\<close> with the frequency 1, and \<open>autocomplete\<close> with the limit 8
  returns the string \<^verbatim>\<open>cat\<close> where the pair of \<^verbatim>\<open>cat\<close> and 1 is due; in the trie
  that holds \<^verbatim>\<open>cat\<close> twice the frequency is 2 and the result is the same.
\<close>

theorem autocomplete_returns_terms_only:
  "walk (insert_trie (TrieNode [] False 0) ''cat'') ''ca''
     = Some (TrieNode [(CHR ''t'', TrieNode [] True 1)] False 0) \<and>
   subtree_terms (TrieNode [(CHR ''t'', TrieNode [] True 1)] False 0) ''ca'' = [(''cat'', 1)] \<and>
   autocomplete (insert_trie (TrieNode [] False 0) ''cat'') ''ca'' 8 = [''cat''] \<and>
   walk (insert_trie (insert_trie (TrieNode [] False 0) ''cat'') ''cat'') ''ca''
     = Some (TrieNode [(CHR ''t'', TrieNode [] True 2)] False 0) \<and>
   subtree_terms (TrieNode [(CHR ''t'', TrieNode [] True 2)] False 0) ''ca'' = [(''cat'', 2)] \<and>
   autocomplete (insert_trie (insert_trie (TrieNode [] False 0) ''cat'') ''cat'') ''ca'' 8 = [''cat'']"
  by (simp add: autocomplete_def dict_get_def Let_def sort_reverse_def slice_to_def)

text \<open>
  C6.  In every engine state (\<open>engine_inv\<close>, which holds of the empty engine and is
  kept by \<open>add_document\<close>) and for every query, \<open>prefix_search\<close> replaces each
  query token by the result of \<open>autocomplete\<close> with the limit 25, which has at most
  25 terms, and ranks the documents by the sum of the term frequencies over the
  postings of all these candidate terms, a candidate that occurs several times
  counting each time: the score over two sequences of postings is the sum of the
  scores.  A document \<^verbatim>\<open>cat car\<close> gets the score 2 for the query \<^verbatim>\<open>ca\<close>, which
  expands to both of its terms, and the score 4 for the query \<^verbatim>\<open>c ca\<close>, whose two
  tokens both expand to both terms.
\<close>

theorem prefix_search_additive:
  "(engine_inv E \<longrightarrow>
      length (autocomplete (trie E) token 25) \<le> 25 \<and>
      prefix_search E query =
        sort_reverse snd
          (spec_scored
             (concat (map (postings_of E)
                (concat (map (\<lambda>token. autocomplete (trie E) token 25) (tokenize query))))))) \<and>
   score_of (ps @ qs) d = score_of ps d + score_of qs d \<and>
   prefix_search_after [(''D'', ''cat car'', ''d.txt'')] ''ca'' = Some [(1, 2)] \<and>
   prefix_search_after [(''D'', ''cat car'', ''d.txt'')] ''c ca'' = Some [(1, 4)]"
proof (intro conjI impI)
  show "length (autocomplete (trie E) token 25) \<le> 25"
    using length_autocomplete [of 25 "trie E" token] by simp
  show "prefix_search E query =
     sort_reverse snd
       (spec_scored
          (concat (map (postings_of E)
             (concat (map (\<lambda>token. autocomplete (trie E) token 25) (tokenize query))))))"
    by (simp add: prefix_search_def search_scored candidates_def)
  show "score_of (ps @ qs) d = score_of ps d + score_of qs d" by (rule score_of_append)
  have tk: "tokenize ''cat car'' = [''cat'', ''car'']" "tokenize ''ca'' = [''ca'']"
    "tokenize ''c ca'' = [''c'', ''ca'']"
    by (simp_all add: tokenize_def lower_def lower_char_def ord_def alnum_def STOPWORDS_def)
  then have "tokenize ''cat car'' \<noteq> []" by simp
  from ingest_single [OF this, of "''D''" "''d.txt''"] obtain E1 where E1:
    "ingest CampusSearchEngine [(''D'', ''cat car'', ''d.txt'')] = Some E1"
    "trie E1 = foldl insert_trie (TrieNode [] False 0) (first_seen (tokenize ''cat car''))"
    "\<And>t. postings_of E1 t =
        (if t \<in> set (tokenize ''cat car'')
         then [\<lparr>doc_id = 1, term_freq = int (count_list (tokenize ''cat car'') t)\<rparr>] else [])"
    by blast
  have ac: "autocomplete (trie E1) ''ca'' 25 = [''cat'', ''car'']"
    "autocomplete (trie E1) ''c'' 25 = [''cat'', ''car'']"
    by (simp_all add: E1(2) tk first_seen_def autocomplete_def dict_get_def Let_def
          sort_reverse_def slice_to_def)
  have "prefix_search E1 ''ca'' = [(1, 2)]"
    by (simp add: prefix_search_def search_scored candidates_def tk ac E1(3) spec_scored_def
          score_of_def first_seen_def sort_reverse_def)
  with E1(1) show "prefix_search_after [(''D'', ''cat car'', ''d.txt'')] ''ca'' = Some [(1, 2)]"
    by (simp add: prefix_search_after_def)
  have "prefix_search E1 ''c ca'' = [(1, 4)]"
    by (simp add: prefix_search_def search_scored candidates_def tk ac E1(3) spec_scored_def
          score_of_def first_seen_def sort_reverse_def)
  with E1(1) show "prefix_search_after [(''D'', ''cat car'', ''d.txt'')] ''c ca'' = Some [(1, 4)]"
    by (simp add: prefix_search_after_def)
qed

theorem prefix_search_additive_witness:
  "prefix_search_after [(''D'', ''dog door dog'', ''d.txt'')] ''do'' = Some [(1, 3)]"
proof -
  have tk: "tokenize ''dog door dog'' = [''dog'', ''door'', ''dog'']" "tokenize ''do'' = [''do'']"
    by (simp_all add: tokenize_def lower_def lower_char_def ord_def alnum_def STOPWORDS_def)
  then have "tokenize ''dog door dog'' \<noteq> []" by simp
  from ingest_single [OF this, of "''D''" "''d.txt''"] obtain E1 where E1:
    "ingest CampusSearchEngine [(''D'', ''dog door dog'', ''d.txt'')] = Some E1"
    "engine_inv E1"
    "trie E1 = foldl insert_trie (TrieNode [] False 0) (first_seen (tokenize ''dog door dog''))"
    "\<And>t. postings_of E1 t =
        (if t \<in> set (tokenize ''dog door dog'')
         then [\<lparr>doc_id = 1, term_freq = int (count_list (tokenize ''dog door dog'') t)\<rparr>] else [])"
    by blast
  have ac: "autocomplete (trie E1) ''do'' 25 = [''dog'', ''door'']"
    by (simp add: E1(3) tk first_seen_def autocomplete_def dict_get_def Let_def
          sort_reverse_def slice_to_def)
  from prefix_search_additive [of E1 "''do''" "''do''" "[]" "[]" 0] E1(2)
  have "prefix_search E1 ''do'' =
     sort_reverse snd
       (spec_scored
          (concat (map (postings_of E1)
             (concat (map (\<lambda>token. autocomplete (trie E1) token 25) (tokenize ''do''))))))"
    by blast
  then have "prefix_search E1 ''do'' = [(1, 3)]"
    by (simp add: tk ac E1(4) spec_scored_def score_of_def first_seen_def sort_reverse_def)
  with E1(1) show ?thesis by (simp add: prefix_search_after_def)
qed

text \<open>
  C7, as stated, fails: the query is matched against the lowercased filename, not
  against the filename.  A document whose filename is \<^verbatim>\<open>REPORT.txt\<close> is returned for
  the query \<^verbatim>\<open>report\<close>, which its filename does not contain.
\<close>

theorem filename_search_case_counterexample:
  "filename_search_after [(''T'', ''text'', ''REPORT.txt'')] ''report'' False = Some [(1, 1)] \<and>
   \<not> contains ''REPORT.txt'' ''report''"
proof -
  let ?docs = "[(''T'', ''text'', ''REPORT.txt'')]"
  from ingest_spec [of ?docs] obtain E' where E':
    "ingest CampusSearchEngine ?docs = Some E'" "documents E' = spec_documents_from 1 ?docs"
    by blast
  have t: "tokenize ''text'' \<noteq> []"
    by (simp_all add: tokenize_def lower_def lower_char_def ord_def alnum_def STOPWORDS_def)
  have q: "lower (strip ''report'') = ''report''"
    by (simp add: strip_def isspace_def lower_def lower_char_def ord_def)
  have l: "lower ''REPORT.txt'' = ''report.txt''"
    by code_simp
  have "filename_search E' ''report'' False = [(1, 1)]"
    by (simp add: filename_search_def q E'(2) t l)
  with E'(1) show ?thesis
    by (simp add: filename_search_after_def)
qed

text \<open>
  C7, amended.  \<open>filename_search\<close> trims and lowercases the query and returns the
  empty sequence when the result is empty; otherwise it returns \<open>(document_id, 1)\<close>
  for exactly those documents whose lowercased filename starts with (\<open>prefix\<close>) or
  contains (otherwise) the trimmed, lowercased query, in the order of the document
  table, which after ingesting a sequence of documents is the order of ingestion.
  With documents A, B, C of which only B and C have \<^verbatim>\<open>report\<close> in the filename the
  result is [(B,1),(C,1)].
\<close>

theorem filename_search_matches:
  "(lower (strip query) = [] \<longrightarrow> filename_search E query prefix = []) \<and>
   (lower (strip query) \<noteq> [] \<longrightarrow>
      filename_search E query prefix =
        map (\<lambda>(d, meta). (d, 1))
          (filter (\<lambda>(d, meta).
               if prefix then (\<exists>r. lower (filename meta) = lower (strip query) @ r)
               else (\<exists>a b. lower (filename meta) = a @ lower (strip query) @ b))
             (documents E))) \<and>
   (\<exists>E'. ingest CampusSearchEngine docs = Some E' \<and> documents E' = spec_documents_from 1 docs) \<and>
   filename_search_after
     [(''A'', ''alpha'', ''notes.txt''), (''B'', ''beta'', ''report1.pdf''),
      (''C'', ''gamma'', ''final_report.txt'')] ''report'' False = Some [(2, 1), (3, 1)]"
proof (intro conjI impI)
  show "filename_search E query prefix = []" if "lower (strip query) = []"
    using that by (simp add: filename_search_def)
  show "filename_search E query prefix =
        map (\<lambda>(d, meta). (d, 1))
          (filter (\<lambda>(d, meta).
               if prefix then (\<exists>r. lower (filename meta) = lower (strip query) @ r)
               else (\<exists>a b. lower (filename meta) = a @ lower (strip query) @ b))
             (documents E))" if "lower (strip query) \<noteq> []"
    using that
    by (simp add: filename_search_def Let_def scan_documents_conv startswith_iff contains_iff)
  from ingest_spec [of docs]
  show "\<exists>E'. ingest CampusSearchEngine docs = Some E' \<and> documents E' = spec_documents_from 1 docs"
    by blast
  let ?docs = "[(''A'', ''alpha'', ''notes.txt''), (''B'', ''beta'', ''report1.pdf''),
      (''C'', ''gamma'', ''final_report.txt'')]"
  from ingest_spec [of ?docs] obtain E' where E':
    "ingest CampusSearchEngine ?docs = Some E'" "documents E' = spec_documents_from 1 ?docs"
    by blast
  have t: "tokenize ''alpha'' \<noteq> []" "tokenize ''beta'' \<noteq> []" "tokenize ''gamma'' \<noteq> []"
    by (simp_all add: tokenize_def lower_def lower_char_def ord_def alnum_def STOPWORDS_def)
  have q: "lower (strip ''report'') = ''report''"
    by (simp add: strip_def isspace_def lower_def lower_char_def ord_def)
  have l: "lower ''notes.txt'' = ''notes.txt''" "lower ''report1.pdf'' = ''report1.pdf''"
    "lower ''final_report.txt'' = ''final_report.txt''"
    by (simp_all add: lower_def lower_char_def ord_def)
  have "filename_search E' ''report'' False = [(2, 1), (3, 1)]"
    by (simp add: filename_search_def q E'(2) t l)
  with E'(1) show "filename_search_after ?docs ''report'' False = Some [(2, 1), (3, 1)]"
    by (simp add: filename_search_after_def)
qed


theorem filename_search_matches_witness:
  "lower (strip ''   '') = [] \<and> filename_search CampusSearchEngine ''   '' False = [] \<and>
   lower (strip '' Report '') \<noteq> [] \<and>
   filename_search_after [(''A'', ''alpha'', ''notes.txt''), (''B'', ''beta'', ''Report1.pdf'')]
     '' Report '' True = Some [(2, 1)]"
proof -
  let ?docs = "[(''A'', ''alpha'', ''notes.txt''), (''B'', ''beta'', ''Report1.pdf'')]"
  have e: "lower (strip ''   '') = []"
    by (simp add: strip_def isspace_def lower_def ord_def)
  have q: "lower (strip '' Report '') = ''report''" by code_simp
  then have ne: "lower (strip '' Report '') \<noteq> []" by simp
  have l: "lower ''notes.txt'' = ''notes.txt''" "lower ''Report1.pdf'' = ''report1.pdf''"
    by code_simp+
  have t: "tokenize ''alpha'' \<noteq> []" "tokenize ''beta'' \<noteq> []"
    by (simp_all add: tokenize_def lower_def lower_char_def ord_def alnum_def STOPWORDS_def)
  from filename_search_matches [of "''   ''" CampusSearchEngine False "[]"] e
  have a: "filename_search CampusSearchEngine ''   '' False = []" by blast
  from filename_search_matches [of "'' Report ''" _ True ?docs]
  obtain E' where E': "ingest CampusSearchEngine ?docs = Some E'"
    "documents E' = spec_documents_from 1 ?docs" by blast
  from filename_search_matches [of "'' Report ''" E' True "[]"] ne
  have "filename_search E' '' Report '' True =
        map (\<lambda>(d, meta). (d, 1))
          (filter (\<lambda>(d, meta). \<exists>r. lower (filename meta) = lower (strip '' Report '') @ r)
             (documents E'))"
    by simp
  then have "filename_search E' '' Report '' True = [(2, 1)]"
    by (simp add: q E'(2) t l startswith_iff [symmetric])
  with E'(1) have b: "filename_search_after ?docs '' Report '' True = Some [(2, 1)]"
    by (simp add: filename_search_after_def)
  from e a ne b show ?thesis by (intro conjI)
qed

end
